theory Spec2Isabelle
  imports Complex_Main
begin

section \<open>Data model of the navigation graph\<close>

text \<open>
  JavaScript numbers are modelled exactly: angles and coordinates as \<open>real\<close>, byte
  counts and timestamps as \<open>nat\<close>.  A reference that may hold \<open>undefined\<close>,
  \<open>null\<close> or an object is a \<open>js_ref\<close>; a field the source only ever tests
  with \<open>!= null\<close> is an \<open>option\<close>.
\<close>

datatype 'a js_ref = Undefined | Null | Ref 'a

datatype error = TypeError

type_synonym bytes = "nat list"

text \<open>\<open>EdgeDirection\<close> (module Edge): the ten members the components refer to.\<close>

datatype EdgeDirection =
  StepForward | StepBackward | StepLeft | StepRight
| TurnLeft | TurnRight | TurnU | Pano | Next | Prev

record IEdgeData =
  direction :: EdgeDirection
  worldMotionAzimuth :: real

record IEdge =
  to :: string
  data :: IEdgeData

record ILatLon =
  lat :: real
  lon :: real

record ILoadStatus =
  loaded :: nat
  total :: nat

record IMesh =
  faces :: "real list"
  vertices :: "real list"

text \<open>
  An \<open>HTMLImageElement\<close> is known by the bytes of the blob its \<open>src\<close> points to
  (\<open>img.src = createObjectURL(new Blob([xmlHTTP.response]))\<close>).
\<close>

datatype HTMLImageElement = HTMLImageElement (src: bytes)

text \<open>
  The entries of \<open>gpano\<close> are compared with \<open>===\<close>, which tells \<open>undefined\<close> (a
  missing entry) from \<open>null\<close>: they are \<open>js_ref\<close> values, equal when both are
  \<open>undefined\<close>, both \<open>null\<close> or the same number.
\<close>

record IGPano =
  CroppedAreaLeftPixels :: "int js_ref"
  CroppedAreaTopPixels :: "int js_ref"
  CroppedAreaImageWidthPixels :: "int js_ref"
  CroppedAreaImageHeightPixels :: "int js_ref"
  FullPanoWidthPixels :: "int js_ref"
  FullPanoHeightPixels :: "int js_ref"

record IAPINavImIm =
  key :: string
  merge_version :: "int option"
  gpano :: "IGPano option"

text \<open>
  The class \<open>Sequence\<close> is not part of the sources at hand; a sequence is taken as its
  two lookups, whatever they compute.
\<close>

record Sequence =
  findNextKey :: "string \<Rightarrow> string option"
  findPrevKey :: "string \<Rightarrow> string option"

text \<open>
  The fields of class \<open>Node\<close>; \<open>key_node\<close> is \<open>_key\<close> and \<open>image_node\<close> is
  \<open>_image\<close>.  \<open>apiNavImIm\<close> is never null in a constructed node: the constructor
  reads \<open>apiNavImIm.key\<close> and throws otherwise.
\<close>

record Node =
  worthy :: bool
  cached :: bool
  lastCacheEvict :: nat
  lastUsed :: nat
  apiNavImIm :: IAPINavImIm
  key_node :: string
  ca :: real
  latLon :: ILatLon
  sequence :: "Sequence js_ref"
  hs :: "string list"
  image_node :: "HTMLImageElement option"
  mesh :: "IMesh option"
  edges :: "IEdge list option"
  loadStatus :: ILoadStatus

text \<open>
  The constructor.  \<open>now\<close> is the value of \<open>new Date().getTime()\<close>; a null or
  undefined \<open>apiNavImIm\<close> (\<open>None\<close>) makes \<open>apiNavImIm.key\<close> throw.
\<close>

definition Node_constructor ::
  "nat \<Rightarrow> real \<Rightarrow> ILatLon \<Rightarrow> bool \<Rightarrow> Sequence js_ref \<Rightarrow> IAPINavImIm option \<Rightarrow> string list
    \<Rightarrow> error + Node" where
  "Node_constructor now ca' latLon' worthy' sequence' apiNavImIm' hs' =
     (case apiNavImIm' of
        None \<Rightarrow> Inl TypeError
      | Some api \<Rightarrow> Inr \<lparr>
          worthy = worthy',
          cached = False,
          lastCacheEvict = 0,
          lastUsed = now,
          apiNavImIm = api,
          key_node = key api,
          ca = ca',
          latLon = latLon',
          sequence = sequence',
          hs = hs',
          image_node = None,
          mesh = None,
          edges = None,
          loadStatus = \<lparr>loaded = 0, total = 100\<rparr> \<rparr>)"

subsection \<open>Derived flags\<close>

definition loaded_node :: "Node \<Rightarrow> bool" where
  "loaded_node n = (cached n \<and> image_node n \<noteq> None)"

text \<open>The test \<open>this.apiNavImIm != null\<close> of \<open>merged\<close> is always true (see above).\<close>

definition merged :: "Node \<Rightarrow> bool" where
  "merged n =
     (case merge_version (apiNavImIm n) of None \<Rightarrow> False | Some v \<Rightarrow> 0 < v)"

definition pano :: "Node \<Rightarrow> bool" where
  "pano n =
     (case gpano (apiNavImIm n) of
        None \<Rightarrow> False
      | Some g \<Rightarrow> FullPanoWidthPixels g \<noteq> Null \<and> FullPanoWidthPixels g \<noteq> Undefined)"

definition fullPano :: "Node \<Rightarrow> bool" where
  "fullPano n =
     (case gpano (apiNavImIm n) of
        None \<Rightarrow> False
      | Some g \<Rightarrow>
          CroppedAreaLeftPixels g = Ref 0 \<and>
          CroppedAreaTopPixels g = Ref 0 \<and>
          CroppedAreaImageWidthPixels g = FullPanoWidthPixels g \<and>
          CroppedAreaImageHeightPixels g = FullPanoHeightPixels g)"

subsection \<open>Sequence lookups\<close>

text \<open>
  The guard is \<open>this.sequence === undefined\<close>: only \<open>undefined\<close> returns null
  (\<open>Inr None\<close>); on \<open>null\<close> the call \<open>this.sequence.findNextKey\<close> throws.
\<close>

definition findNextKeyInSequence :: "Node \<Rightarrow> error + string option" where
  "findNextKeyInSequence n =
     (case sequence n of
        Undefined \<Rightarrow> Inr None
      | Null \<Rightarrow> Inl TypeError
      | Ref s \<Rightarrow> Inr (findNextKey s (key_node n)))"

definition findPrevKeyInSequence :: "Node \<Rightarrow> error + string option" where
  "findPrevKeyInSequence n =
     (case sequence n of
        Undefined \<Rightarrow> Inr None
      | Null \<Rightarrow> Inl TypeError
      | Ref s \<Rightarrow> Inr (findPrevKey s (key_node n)))"

section \<open>Keyboard navigation: the panoramic edge selector\<close>

record KeyboardEvent =
  keyCode :: nat
  shiftKey :: bool
  altKey :: bool

text \<open>What a key press asks of the navigator: \<open>moveDir\<close> or \<open>moveToKey\<close>.\<close>

datatype move = MoveDir EdgeDirection | MoveToKey string

record outcome =
  defaultPrevented :: bool
  issued :: "move option"

text \<open>
  The \<open>switch\<close> of \<open>_navigatePanorama\<close>: \<open>None\<close> is the \<open>default\<close> branch (plain
  return); otherwise the triple (navigationAngle, stepDirection, sequenceDirection) as
  the variables stand after the switch.  \<open>phi\<close> is \<open>_rotationFromCamera(camera).phi\<close>.
\<close>

definition panoramaKey ::
  "KeyboardEvent \<Rightarrow> real \<Rightarrow> (real \<times> EdgeDirection option \<times> EdgeDirection option) option" where
  "panoramaKey ev phi =
     (if keyCode ev = 37 then
        Some (if shiftKey ev \<or> altKey ev then (0, None, None)
              else (pi / 2 + phi, Some StepLeft, None))
      else if keyCode ev = 38 then
        Some (if shiftKey ev then (0, None, None)
              else if altKey ev then (0, None, Some Next)
              else (phi, Some StepForward, None))
      else if keyCode ev = 39 then
        Some (if shiftKey ev \<or> altKey ev then (0, None, None)
              else (- pi / 2 + phi, Some StepRight, None))
      else if keyCode ev = 40 then
        Some (if shiftKey ev then (0, None, None)
              else if altKey ev then (0, None, Some Prev)
              else (pi + phi, Some StepBackward, None))
      else None)"

text \<open>\<open>_moveDir\<close>; \<open>node.edges.some\<close> throws when the edge list is still null.\<close>

definition moveDir :: "EdgeDirection option \<Rightarrow> Node \<Rightarrow> error + move option" where
  "moveDir d n =
     (case d of
        None \<Rightarrow> Inr None
      | Some dir \<Rightarrow>
          (case edges n of
             None \<Rightarrow> Inl TypeError
           | Some es \<Rightarrow>
               if list_ex (\<lambda>edge. direction (data edge) = dir) es
               then Inr (Some (MoveDir dir)) else Inr None))"

text \<open>\<open>Number.MAX_VALUE\<close>, the largest finite double.\<close>

definition MAX_VALUE :: real where
  "MAX_VALUE = (2 ^ 53 - 1) * 2 ^ 971"

definition threshold :: real where
  "threshold = pi / 4"

text \<open>The filter on \<open>node.edges\<close>: it keeps the order of the edge list.\<close>

definition candidateEdges :: "EdgeDirection \<Rightarrow> IEdge list \<Rightarrow> IEdge list" where
  "candidateEdges stepDirection es =
     filter (\<lambda>e. direction (data e) = Pano \<or> direction (data e) = stepDirection) es"

text \<open>
  \<open>Spatial.wrapAngle\<close> is not part of the sources at hand: the selector takes it as
  the parameter \<open>wrapAngle\<close>, and what is proved holds for every such function.
\<close>

definition edgeAngle :: "(real \<Rightarrow> real) \<Rightarrow> real \<Rightarrow> IEdge \<Rightarrow> real" where
  "edgeAngle wrapAngle navigationAngle edge =
     \<bar>wrapAngle (worldMotionAzimuth (data edge) - navigationAngle)\<bar>"

text \<open>The \<open>for\<close> loop over the candidates, on the pair (smallestAngle, toKey).\<close>

fun selectLoop ::
  "(real \<Rightarrow> real) \<Rightarrow> real \<Rightarrow> IEdge list \<Rightarrow> real \<times> string option \<Rightarrow> real \<times> string option" where
  "selectLoop wrapAngle navigationAngle [] acc = acc"
| "selectLoop wrapAngle navigationAngle (edge # rest) (smallestAngle, toKey) =
     (let angle = edgeAngle wrapAngle navigationAngle edge in
      if angle < min smallestAngle threshold
      then selectLoop wrapAngle navigationAngle rest (angle, Some (to edge))
      else selectLoop wrapAngle navigationAngle rest (smallestAngle, toKey))"

text \<open>The selector proper: filter, loop, and the key left in \<open>toKey\<close>.\<close>

definition selectEdge ::
  "(real \<Rightarrow> real) \<Rightarrow> IEdge list \<Rightarrow> EdgeDirection \<Rightarrow> real \<Rightarrow> string option" where
  "selectEdge wrapAngle es stepDirection navigationAngle =
     snd (selectLoop wrapAngle navigationAngle (candidateEdges stepDirection es)
            (MAX_VALUE, None))"

text \<open>
  \<open>_navigatePanorama\<close>.  The navigation angle is wrapped before the selection;
  \<open>node.edges.filter\<close> throws when the edge list is still null.
\<close>

definition navigatePanorama ::
  "(real \<Rightarrow> real) \<Rightarrow> KeyboardEvent \<Rightarrow> Node \<Rightarrow> real \<Rightarrow> error + outcome" where
  "navigatePanorama wrapAngle ev n phi =
     (case panoramaKey ev phi of
        None \<Rightarrow> Inr \<lparr>defaultPrevented = False, issued = None\<rparr>
      | Some (navigationAngle, stepDirection, sequenceDirection) \<Rightarrow>
          if sequenceDirection \<noteq> None then
            (case moveDir sequenceDirection n of
               Inl e \<Rightarrow> Inl e
             | Inr m \<Rightarrow> Inr \<lparr>defaultPrevented = True, issued = m\<rparr>)
          else
            (case stepDirection of
               None \<Rightarrow> Inr \<lparr>defaultPrevented = True, issued = None\<rparr>
             | Some d \<Rightarrow>
                 (case edges n of
                    None \<Rightarrow> Inl TypeError
                  | Some es \<Rightarrow>
                      Inr \<lparr>defaultPrevented = True,
                           issued = map_option MoveToKey
                             (selectEdge wrapAngle es d (wrapAngle navigationAngle))\<rparr>)))"

subsection \<open>Angle wrapping and sample data\<close>

text \<open>
  Modelled from the spec: \<open>Spatial.wrapAngle\<close>, which is not part of the sources at
  hand, "normalizes an angle in radians to \<open>(-\<pi>, \<pi>]\<close>".  The selector's theorems do not
  depend on it; it instantiates them on concrete edge lists.
\<close>

definition wrapAngle :: "real \<Rightarrow> real" where
  "wrapAngle angle = angle - 2 * pi * of_int \<lceil>(angle - pi) / (2 * pi)\<rceil>"

definition edge :: "string \<Rightarrow> EdgeDirection \<Rightarrow> real \<Rightarrow> IEdge" where
  "edge k d az = \<lparr>to = k, data = \<lparr>direction = d, worldMotionAzimuth = az\<rparr>\<rparr>"

text \<open>Edges at 0, 50 and 170 degrees for a forward step, and a left step at 10 degrees.\<close>

definition threeEdges :: "IEdge list" where
  "threeEdges =
     [edge ''A'' StepForward 0, edge ''B'' Pano (5 * pi / 18),
      edge ''C'' StepForward (17 * pi / 18), edge ''D'' StepLeft (pi / 18)]"

text \<open>
  Forward edges at 40, plus 30 and minus 30 degrees, in that order, with a left step at 0
  degrees between the last two.
\<close>

definition tiedEdges :: "IEdge list" where
  "tiedEdges =
     [edge ''far'' StepForward (2 * pi / 9), edge ''plus'' StepForward (pi / 6),
      edge ''left'' StepLeft 0, edge ''minus'' StepForward (- pi / 6)]"

definition sampleNode :: "Sequence js_ref \<Rightarrow> int option \<Rightarrow> IEdge list option \<Rightarrow> Node" where
  "sampleNode sq mv es =
     \<lparr>worthy = True, cached = False, lastCacheEvict = 0, lastUsed = 0,
      apiNavImIm = \<lparr>key = ''K'', merge_version = mv, gpano = None\<rparr>,
      key_node = ''K'', ca = 0, latLon = \<lparr>lat = 0, lon = 0\<rparr>, sequence = sq, hs = [],
      image_node = None, mesh = None, edges = es,
      loadStatus = \<lparr>loaded = 0, total = 100\<rparr>\<rparr>"

definition upKey :: KeyboardEvent where
  "upKey = \<lparr>keyCode = 38, shiftKey = False, altKey = False\<rparr>"

section \<open>Spatial\<close>

text \<open>
  Vectors and angle-axis rotations are triples of reals (the source reads the entries 0,
  1 and 2 of its arrays).  \<open>Vector3\<close> and \<open>Matrix4\<close> are three.js types; their
  methods are written out as the library computes them, over exact arithmetic.
  \<open>divideScalar\<close> maps a vector divided by 0 to the zero vector.  A \<open>Vector3\<close>
  that \<open>rotate\<close> returns is the triple of its \<open>x\<close>, \<open>y\<close> and \<open>z\<close>.
\<close>

type_synonym Vector3 = "real \<times> real \<times> real"

record Matrix4 =
  n11 :: real  n12 :: real  n13 :: real  n14 :: real
  n21 :: real  n22 :: real  n23 :: real  n24 :: real
  n31 :: real  n32 :: real  n33 :: real  n34 :: real
  n41 :: real  n42 :: real  n43 :: real  n44 :: real

definition length_v :: "Vector3 \<Rightarrow> real" where
  "length_v v = (case v of (x, y, z) \<Rightarrow> sqrt (x * x + y * y + z * z))"

definition divideScalar :: "Vector3 \<Rightarrow> real \<Rightarrow> Vector3" where
  "divideScalar v scalar =
     (case v of (x, y, z) \<Rightarrow>
        if scalar \<noteq> 0
        then (let invScalar = 1 / scalar in (x * invScalar, y * invScalar, z * invScalar))
        else (0, 0, 0))"

definition normalize_v :: "Vector3 \<Rightarrow> Vector3" where
  "normalize_v v = divideScalar v (length_v v)"

definition makeRotationAxis :: "Vector3 \<Rightarrow> real \<Rightarrow> Matrix4" where
  "makeRotationAxis axis angle =
     (case axis of (x, y, z) \<Rightarrow>
        let c = cos angle; s = sin angle; t = 1 - c; tx = t * x; ty = t * y in
        \<lparr>n11 = tx * x + c,     n12 = tx * y - s * z, n13 = tx * z + s * y, n14 = 0,
         n21 = tx * y + s * z, n22 = ty * y + c,     n23 = ty * z - s * x, n24 = 0,
         n31 = tx * z - s * y, n32 = ty * z + s * x, n33 = t * z * z + c,  n34 = 0,
         n41 = 0, n42 = 0, n43 = 0, n44 = 1\<rparr>)"

definition applyMatrix4 :: "Vector3 \<Rightarrow> Matrix4 \<Rightarrow> Vector3" where
  "applyMatrix4 v m =
     (case v of (x, y, z) \<Rightarrow>
        (n11 m * x + n12 m * y + n13 m * z + n14 m,
         n21 m * x + n22 m * y + n23 m * z + n24 m,
         n31 m * x + n32 m * y + n33 m * z + n34 m))"

definition rotationMatrix :: "Vector3 \<Rightarrow> Matrix4" where
  "rotationMatrix angleAxis =
     (let angle = length_v angleAxis; axis = normalize_v angleAxis
      in makeRotationAxis axis angle)"

definition rotate_v :: "Vector3 \<Rightarrow> Vector3 \<Rightarrow> Vector3" where
  "rotate_v vector angleAxis = applyMatrix4 vector (rotationMatrix angleAxis)"

text \<open>The negation written inline in \<open>opticalCenter\<close> and \<open>viewingDirection\<close>.\<close>

definition negate :: "Vector3 \<Rightarrow> Vector3" where
  "negate r = (case r of (x, y, z) \<Rightarrow> (- x, - y, - z))"

definition opticalCenter :: "Vector3 \<Rightarrow> Vector3 \<Rightarrow> Vector3" where
  "opticalCenter rotation translation = rotate_v (negate translation) (negate rotation)"

definition viewingDirection :: "Vector3 \<Rightarrow> Vector3" where
  "viewingDirection rotation = rotate_v (0, 0, 1) (negate rotation)"

section \<open>Asset caching\<close>

text \<open>
  The event handed to \<open>img.onerror\<close>.
\<close>

datatype Event = Event string

text \<open>
  \<open>ILoadStatusObject\<close>; its field \<open>loaded\<close> is \<open>loaded_of\<close> here, the name being taken
  by \<open>ILoadStatus\<close>.
\<close>

record 'a ILoadStatusObject =
  loaded_of :: ILoadStatus
  object :: "'a option"

subsection \<open>Observables\<close>

text \<open>
  What an RxJS observer is told.  A \<open>Subscriber\<close> passes on the calls made on it until
  the first \<open>error\<close> or \<open>complete\<close>, and ignores every call after it (\<open>isStopped\<close>).
\<close>

datatype 'a notification = OnNext 'a | OnError Event | OnComplete

fun subscriber :: "bool \<Rightarrow> 'a notification list \<Rightarrow> bool \<times> 'a notification list" where
  "subscriber isStopped [] = (isStopped, [])"
| "subscriber isStopped (OnNext v # calls) =
     (if isStopped then subscriber True calls
      else (let (stopped, out) = subscriber False calls in (stopped, OnNext v # out)))"
| "subscriber isStopped (c # calls) =
     (if isStopped then subscriber True calls
      else (let (stopped, out) = subscriber True calls in (stopped, c # out)))"

subsection \<open>cacheImage\<close>

text \<open>
  The requests a subscription sends: \<open>GET Urls.image(key, imageSize)\<close> and
  \<open>GET Urls.proto_mesh(key)\<close>.
\<close>

datatype ImageSize = BaseImageSize | BasePanoramaSize

datatype request = ImageRequest string ImageSize | MeshRequest string

text \<open>
  What the browser may report to a subscription of \<open>cacheImage\<close>: a progress or load
  event of the request (with \<open>e.loaded\<close>, \<open>e.total\<close> and, on load, the response), an
  error event of the request (for which the source registers no handler), and the load or
  error event of the image element.
\<close>

datatype image_event =
  ImageProgress nat nat
| ImageLoad nat nat bytes
| ImageError
| ImgOnload
| ImgOnerror Event

text \<open>
  The state of a subscription: the subscriber's \<open>isStopped\<close>, and the load event that
  \<open>img.onload\<close> and \<open>img.onerror\<close> close over once \<open>xmlHTTP.onload\<close> has installed them.
\<close>

record cacheImage_state =
  image_stopped :: bool
  image_loadEvent :: "(nat \<times> nat \<times> bytes) option"

definition cacheImage_subscribe :: "Node \<Rightarrow> cacheImage_state \<times> request" where
  "cacheImage_subscribe n =
     (\<lparr>image_stopped = False, image_loadEvent = None\<rparr>,
      ImageRequest (key_node n) (if fullPano n then BasePanoramaSize else BaseImageSize))"

definition image_calls ::
  "cacheImage_state \<Rightarrow> HTMLImageElement ILoadStatusObject notification list
     \<Rightarrow> cacheImage_state \<times> HTMLImageElement ILoadStatusObject notification list" where
  "image_calls st calls =
     (let (stopped, out) = subscriber (image_stopped st) calls
      in (st\<lparr>image_stopped := stopped\<rparr>, out))"

fun cacheImage_on ::
  "image_event \<Rightarrow> cacheImage_state
     \<Rightarrow> cacheImage_state \<times> HTMLImageElement ILoadStatusObject notification list" where
  "cacheImage_on (ImageProgress l t) st =
     image_calls st [OnNext \<lparr>loaded_of = \<lparr>loaded = l, total = t\<rparr>, object = None\<rparr>]"
| "cacheImage_on (ImageLoad l t response) st =
     (st\<lparr>image_loadEvent := Some (l, t, response)\<rparr>, [])"
| "cacheImage_on ImageError st = (st, [])"
| "cacheImage_on ImgOnload st =
     (case image_loadEvent st of
        None \<Rightarrow> (st, [])
      | Some (l, t, response) \<Rightarrow>
          image_calls st
            [OnNext \<lparr>loaded_of = \<lparr>loaded = l, total = t\<rparr>,
                     object = Some (HTMLImageElement response)\<rparr>,
             OnComplete])"
| "cacheImage_on (ImgOnerror err) st =
     (case image_loadEvent st of
        None \<Rightarrow> (st, [])
      | Some e \<Rightarrow> image_calls st [OnError err])"

fun cacheImage_run ::
  "cacheImage_state \<Rightarrow> image_event list
     \<Rightarrow> cacheImage_state \<times> HTMLImageElement ILoadStatusObject notification list" where
  "cacheImage_run st [] = (st, [])"
| "cacheImage_run st (e # es) =
     (let (st', out) = cacheImage_on e st; (st'', outs) = cacheImage_run st' es
      in (st'', out @ outs))"

subsection \<open>cacheMesh\<close>

text \<open>
  \<open>MeshReader.read\<close> is not part of the sources at hand: it is the parameter \<open>read\<close>,
  \<open>None\<close> where it throws.  A load event carries \<open>e.loaded\<close>, \<open>e.total\<close>,
  \<open>xmlHTTP.status\<close> and the response.  The state of a subscription is the subscriber's
  \<open>isStopped\<close>; a node that is not merged creates no request, and its subscriber is
  stopped from the start.
\<close>

datatype mesh_event =
  MeshProgress nat nat
| MeshLoad nat nat nat bytes
| MeshError

definition cacheMesh_subscribe ::
  "Node \<Rightarrow> bool \<times> IMesh ILoadStatusObject notification list \<times> request option" where
  "cacheMesh_subscribe n =
     (if \<not> merged n then
        (let (stopped, out) =
           subscriber False
             [OnNext \<lparr>loaded_of = \<lparr>loaded = 0, total = 0\<rparr>,
                      object = Some \<lparr>faces = [], vertices = []\<rparr>\<rparr>,
              OnComplete]
         in (stopped, out, None))
      else (False, [], Some (MeshRequest (key_node n))))"

fun cacheMesh_on ::
  "(bytes \<Rightarrow> IMesh option) \<Rightarrow> mesh_event \<Rightarrow> bool
     \<Rightarrow> bool \<times> IMesh ILoadStatusObject notification list" where
  "cacheMesh_on read (MeshProgress l t) isStopped =
     subscriber isStopped [OnNext \<lparr>loaded_of = \<lparr>loaded = l, total = t\<rparr>, object = None\<rparr>]"
| "cacheMesh_on read (MeshLoad l t status response) isStopped =
     (if status = 200 then
        (case read response of
           None \<Rightarrow> (isStopped, [])
         | Some m \<Rightarrow>
             subscriber isStopped
               [OnNext \<lparr>loaded_of = \<lparr>loaded = l, total = t\<rparr>, object = Some m\<rparr>, OnComplete])
      else
        subscriber isStopped
          [OnNext \<lparr>loaded_of = \<lparr>loaded = l, total = t\<rparr>,
                   object = Some \<lparr>faces = [], vertices = []\<rparr>\<rparr>,
           OnComplete])"
| "cacheMesh_on read MeshError isStopped = (isStopped, [])"

fun cacheMesh_run ::
  "(bytes \<Rightarrow> IMesh option) \<Rightarrow> bool \<Rightarrow> mesh_event list
     \<Rightarrow> bool \<times> IMesh ILoadStatusObject notification list" where
  "cacheMesh_run read st [] = (st, [])"
| "cacheMesh_run read st (e # es) =
     (let (st', out) = cacheMesh_on read e st; (st'', outs) = cacheMesh_run read st' es
      in (st'', out @ outs))"

subsection \<open>cacheAssets\<close>

text \<open>
  The function given to \<open>combineLatest\<close>: it writes the node and returns it.
\<close>

definition project ::
  "Node \<Rightarrow> HTMLImageElement ILoadStatusObject option \<Rightarrow> IMesh ILoadStatusObject option
     \<Rightarrow> Node" where
  "project this image' mesh' =
     (let n0 = this\<lparr>loadStatus := \<lparr>loaded = 0, total = 0\<rparr>\<rparr>;
          n1 = (case mesh' of
                  None \<Rightarrow> n0
                | Some m \<Rightarrow>
                    n0\<lparr>mesh := object m,
                       loadStatus :=
                         \<lparr>loaded = loaded (loadStatus n0) + loaded (loaded_of m),
                          total = total (loadStatus n0) + total (loaded_of m)\<rparr>\<rparr>);
          n2 = (case image' of
                  None \<Rightarrow> n1
                | Some i \<Rightarrow>
                    n1\<lparr>image_node := object i,
                       loadStatus :=
                         \<lparr>loaded = loaded (loadStatus n1) + loaded (loaded_of i),
                          total = total (loadStatus n1) + total (loaded_of i)\<rparr>\<rparr>)
      in n2)"

text \<open>
  \<open>combineLatest\<close> of RxJS: it keeps the latest value of each source, calls the
  projection on every value once each source has given one, completes when all sources
  have completed, and passes on the first error; after its error or completion nothing
  more is delivered.
\<close>

datatype source_notification =
  FromImage "HTMLImageElement ILoadStatusObject notification"
| FromMesh "IMesh ILoadStatusObject notification"

record cacheAssets_state =
  node :: Node
  imageValue :: "HTMLImageElement ILoadStatusObject option"
  meshValue :: "IMesh ILoadStatusObject option"
  active :: nat
  stopped :: bool

definition emitProjected :: "cacheAssets_state \<Rightarrow> cacheAssets_state \<times> Node notification list" where
  "emitProjected s =
     (case (imageValue s, meshValue s) of
        (Some i, Some m) \<Rightarrow>
          (let this = project (node s) (Some i) (Some m) in (s\<lparr>node := this\<rparr>, [OnNext this]))
      | _ \<Rightarrow> (s, []))"

definition notifyComplete :: "cacheAssets_state \<Rightarrow> cacheAssets_state \<times> Node notification list" where
  "notifyComplete s =
     (let a = active s - 1 in
      if a = 0 then (s\<lparr>active := a, stopped := True\<rparr>, [OnComplete])
      else (s\<lparr>active := a\<rparr>, []))"

fun combineLatest_on ::
  "source_notification \<Rightarrow> cacheAssets_state \<Rightarrow> cacheAssets_state \<times> Node notification list" where
  "combineLatest_on x s =
     (if stopped s then (s, [])
      else (case x of
         FromImage (OnNext v) \<Rightarrow> emitProjected (s\<lparr>imageValue := Some v\<rparr>)
       | FromMesh (OnNext v) \<Rightarrow> emitProjected (s\<lparr>meshValue := Some v\<rparr>)
       | FromImage OnComplete \<Rightarrow> notifyComplete s
       | FromMesh OnComplete \<Rightarrow> notifyComplete s
       | FromImage (OnError e) \<Rightarrow> (s\<lparr>stopped := True\<rparr>, [OnError e])
       | FromMesh (OnError e) \<Rightarrow> (s\<lparr>stopped := True\<rparr>, [OnError e])))"

fun combineLatest_run ::
  "cacheAssets_state \<Rightarrow> source_notification list
     \<Rightarrow> cacheAssets_state \<times> Node notification list" where
  "combineLatest_run s [] = (s, [])"
| "combineLatest_run s (x # xs) =
     (let (s', out) = combineLatest_on x s; (s'', outs) = combineLatest_run s' xs
      in (s'', out @ outs))"

text \<open>On subscription no source has given a value and both are active.\<close>

definition combineLatest_initial :: "Node \<Rightarrow> cacheAssets_state" where
  "combineLatest_initial n = \<lparr>node = n, imageValue = None, meshValue = None, active = 2, stopped = False\<rparr>"

text \<open>
  The events of one invocation, in the order the event loop delivers them, each from the
  image request or the mesh request.
\<close>

datatype asset_event = ImageEvent image_event | MeshEvent mesh_event

text \<open>What the two sources tell \<open>combineLatest\<close>, in the order of the events.\<close>

fun events_trace ::
  "(bytes \<Rightarrow> IMesh option) \<Rightarrow> cacheImage_state \<Rightarrow> bool \<Rightarrow> asset_event list
     \<Rightarrow> source_notification list" where
  "events_trace read ci cm [] = []"
| "events_trace read ci cm (ImageEvent e # es) =
     (let (ci', out) = cacheImage_on e ci in map FromImage out @ events_trace read ci' cm es)"
| "events_trace read ci cm (MeshEvent e # es) =
     (let (cm', out) = cacheMesh_on read e cm in map FromMesh out @ events_trace read ci cm' es)"

text \<open>
  Subscribing to \<open>cacheAssets()\<close> subscribes to \<open>cacheImage()\<close>, which sends its request,
  then to \<open>cacheMesh()\<close>, which answers at once for a node that is not merged.
\<close>

definition cacheAssets_trace ::
  "(bytes \<Rightarrow> IMesh option) \<Rightarrow> Node \<Rightarrow> asset_event list \<Rightarrow> source_notification list" where
  "cacheAssets_trace read n evs =
     (let (ci, imageRequest) = cacheImage_subscribe n;
          (cm, out, meshRequest) = cacheMesh_subscribe n
      in map FromMesh out @ events_trace read ci cm evs)"

definition cacheAssets ::
  "(bytes \<Rightarrow> IMesh option) \<Rightarrow> Node \<Rightarrow> asset_event list
     \<Rightarrow> cacheAssets_state \<times> Node notification list" where
  "cacheAssets read n evs =
     combineLatest_run (combineLatest_initial n) (cacheAssets_trace read n evs)"

text \<open>Reading a trace: the notifications of one source, the values told, the last one.\<close>

fun fromImage ::
  "source_notification list \<Rightarrow> HTMLImageElement ILoadStatusObject notification list" where
  "fromImage [] = []"
| "fromImage (FromImage x # xs) = x # fromImage xs"
| "fromImage (FromMesh x # xs) = fromImage xs"

fun fromMesh :: "source_notification list \<Rightarrow> IMesh ILoadStatusObject notification list" where
  "fromMesh [] = []"
| "fromMesh (FromMesh x # xs) = x # fromMesh xs"
| "fromMesh (FromImage x # xs) = fromMesh xs"

fun values_of :: "'a notification list \<Rightarrow> 'a list" where
  "values_of [] = []"
| "values_of (OnNext v # xs) = v # values_of xs"
| "values_of (x # xs) = values_of xs"

definition lastValue :: "'a notification list \<Rightarrow> 'a option" where
  "lastValue ns = (if values_of ns = [] then None else Some (last (values_of ns)))"

fun imageEvents :: "asset_event list \<Rightarrow> image_event list" where
  "imageEvents [] = []"
| "imageEvents (ImageEvent e # es) = e # imageEvents es"
| "imageEvents (MeshEvent e # es) = imageEvents es"

fun meshEvents :: "asset_event list \<Rightarrow> mesh_event list" where
  "meshEvents [] = []"
| "meshEvents (MeshEvent e # es) = e # meshEvents es"
| "meshEvents (ImageEvent e # es) = meshEvents es"

definition readNothing :: "bytes \<Rightarrow> IMesh option" where
  "readNothing response = None"

subsection \<open>The two fetches on their own\<close>

text \<open>
  What a subscription of \<open>cacheImage()\<close> or of \<open>cacheMesh()\<close> tells its observer, given
  the events of its request.
\<close>

definition cacheImage_notifications ::
  "Node \<Rightarrow> image_event list \<Rightarrow> HTMLImageElement ILoadStatusObject notification list" where
  "cacheImage_notifications n evs = snd (cacheImage_run (fst (cacheImage_subscribe n)) evs)"

definition cacheMesh_notifications ::
  "(bytes \<Rightarrow> IMesh option) \<Rightarrow> Node \<Rightarrow> mesh_event list
     \<Rightarrow> IMesh ILoadStatusObject notification list" where
  "cacheMesh_notifications read n evs =
     (let (cm, out, meshRequest) = cacheMesh_subscribe n
      in out @ snd (cacheMesh_run read cm evs))"



definition mergedNode :: Node where
  "mergedNode = sampleNode Undefined (Some 1) None"

definition plainNode :: Node where
  "plainNode = sampleNode Undefined None None"

definition fullRun :: "asset_event list" where
  "fullRun =
     [ImageEvent (ImageProgress 10 100), ImageEvent (ImageLoad 100 100 [1, 2]),
      MeshEvent (MeshLoad 7 7 404 []), ImageEvent ImgOnload]"

text \<open>
  A reader that decodes every response to one triangle, and a run on a merged node in
  which the mesh request answers with status 200.
\<close>

definition readTriangle :: "bytes \<Rightarrow> IMesh option" where
  "readTriangle response = Some \<lparr>faces = [0, 1, 2], vertices = [0, 0, 0, 1, 0, 0, 0, 1, 0]\<rparr>"

definition decodedRun :: "asset_event list" where
  "decodedRun =
     [MeshEvent (MeshProgress 3 7), ImageEvent (ImageProgress 10 100),
      ImageEvent (ImageLoad 100 100 [1, 2]), MeshEvent (MeshLoad 7 7 200 [5]),
      ImageEvent ImgOnload]"

definition decodeErrorRun :: "asset_event list" where
  "decodeErrorRun =
     [ImageEvent (ImageLoad 100 100 [1, 2]), ImageEvent (ImgOnerror (Event ''error''))]"

subsection \<open>Predicates on streams\<close>

text \<open>A notification that ends a stream, and a stream that has ended.\<close>

fun terminal :: "'a notification \<Rightarrow> bool" where
  "terminal (OnNext v) = False"
| "terminal x = True"

definition terminated :: "'a notification list \<Rightarrow> bool" where
  "terminated ns = list_ex terminal ns"

text \<open>
  A well-formed stream: nothing follows an error or a completion, and a completion comes
  after a value that carries an object.
\<close>

fun wf_stream_rev :: "'a ILoadStatusObject notification list \<Rightarrow> bool" where
  "wf_stream_rev [] = True"
| "wf_stream_rev (x # older) =
     (wf_stream_rev older \<and> \<not> terminated older \<and>
      (x = OnComplete \<longrightarrow>
         (case lastValue (rev older) of None \<Rightarrow> False | Some v \<Rightarrow> object v \<noteq> None)))"

definition wf_stream :: "'a ILoadStatusObject notification list \<Rightarrow> bool" where
  "wf_stream ns = wf_stream_rev (rev ns)"

text \<open>
  The node agrees with the latest values of the two sources: their objects and the sums of
  their byte counts.
\<close>

definition agrees ::
  "Node \<Rightarrow> HTMLImageElement ILoadStatusObject \<Rightarrow> IMesh ILoadStatusObject \<Rightarrow> bool" where
  "agrees nd i m \<longleftrightarrow>
     image_node nd = object i \<and> mesh nd = object m
     \<and> loaded (loadStatus nd) = loaded (loaded_of i) + loaded (loaded_of m)
     \<and> total (loadStatus nd) = total (loaded_of i) + total (loaded_of m)"

text \<open>
  What holds of \<open>combineLatest\<close> after any trace whose two streams \<open>I\<close> and \<open>M\<close> are
  well formed, the second without error.
\<close>

definition cl_inv ::
  "HTMLImageElement ILoadStatusObject notification list
    \<Rightarrow> IMesh ILoadStatusObject notification list
    \<Rightarrow> cacheAssets_state \<Rightarrow> Node notification list \<Rightarrow> bool" where
  "cl_inv I M s outs \<longleftrightarrow>
     (stopped s \<longleftrightarrow> terminated outs)
   \<and> \<not> terminated (butlast outs)
   \<and> (OnComplete \<in> set outs \<longleftrightarrow> OnComplete \<in> set I \<and> OnComplete \<in> set M)
   \<and> (\<forall>e. OnError e \<in> set outs \<longleftrightarrow> OnError e \<in> set I)
   \<and> ((\<exists>nd. OnNext nd \<in> set outs) \<longrightarrow> (\<exists>v. OnNext v \<in> set I) \<and> (\<exists>v. OnNext v \<in> set M))
   \<and> (\<forall>nd. lastValue outs = Some nd \<longrightarrow> nd = node s)
   \<and> ((\<forall>e. OnError e \<notin> set I) \<longrightarrow>
        imageValue s = lastValue I \<and> meshValue s = lastValue M
      \<and> active s = 2 - (if OnComplete \<in> set I then 1 else 0) - (if OnComplete \<in> set M then 1 else 0)
      \<and> (\<forall>i m. lastValue I = Some i \<longrightarrow> lastValue M = Some m \<longrightarrow>
            agrees (node s) i m \<and> lastValue outs = Some (node s)))"


section \<open>Node: construction, flags and sequence lookups\<close>

text \<open>
  C9.  The derived flag \<open>loaded\<close> is true exactly when \<open>cached\<close> is true and the
  image is non-null, in every state of the node.
\<close>

theorem loaded_iff_cached_and_image:
  "loaded_node n = (cached n \<and> (\<exists>img. image_node n = Some img))"
  by (simp add: loaded_node_def)

text \<open>
  C10.  A freshly constructed node is uncached and has no assets: \<open>cached\<close> is false,
  image, mesh and edges are null, \<open>lastCacheEvict\<close> is 0 and the load status is
  \<open>{loaded: 0, total: 100}\<close>.
\<close>

theorem constructor_initial_state:
  "\<exists>n. Node_constructor now c ll w s (Some api) h = Inr n
     \<and> cached n = False \<and> image_node n = None \<and> mesh n = None \<and> edges n = None
     \<and> lastCacheEvict n = 0 \<and> loadStatus n = \<lparr>loaded = 0, total = 100\<rparr>
     \<and> total (loadStatus n) \<noteq> 0"
  by (simp add: Node_constructor_def)

text \<open>
  C8.  A node that has no sequence assigned (its \<open>sequence\<close> is \<open>undefined\<close>) answers
  null to both lookups: no error is raised and no lookup is consulted.
\<close>

theorem no_sequence_returns_null:
  assumes "sequence n = Undefined"
  shows "findNextKeyInSequence n = Inr None \<and> findPrevKeyInSequence n = Inr None"
  using assms by (simp add: findNextKeyInSequence_def findPrevKeyInSequence_def)

theorem no_sequence_returns_null_witness:
  "sequence (sampleNode Undefined None None) = Undefined
   \<and> findNextKeyInSequence (sampleNode Undefined None None) = Inr None
   \<and> findPrevKeyInSequence (sampleNode Undefined None None) = Inr None"
proof -
  have h: "sequence (sampleNode Undefined None None) = Undefined"
    by (simp add: sampleNode_def)
  from no_sequence_returns_null [OF h] h show ?thesis by simp
qed

text \<open>
  The guard tests for \<open>undefined\<close> only: with a \<open>null\<close> sequence both lookups throw.
\<close>

lemma null_sequence_throws:
  "sequence n = Null \<Longrightarrow>
     findNextKeyInSequence n = Inl TypeError \<and> findPrevKeyInSequence n = Inl TypeError"
  by (simp add: findNextKeyInSequence_def findPrevKeyInSequence_def)

section \<open>The edge selector\<close>

subsection \<open>The loop\<close>

lemma min_MAX_VALUE_threshold: "min MAX_VALUE threshold = pi / 4"
proof -
  have "pi / 4 \<le> (1::real)" using pi_less_4 by simp
  moreover have "(1::real) \<le> (2 ^ 53 - 1) * 2 ^ 971" by simp
  ultimately show ?thesis by (simp add: MAX_VALUE_def threshold_def)
qed

lemma less_min_MAX_VALUE: "x < min MAX_VALUE threshold \<longleftrightarrow> x < pi / 4"
  by (simp only: min_MAX_VALUE_threshold)

text \<open>An edge list with no edge under the running bound leaves the pair as it is.\<close>

lemma selectLoop_unchanged:
  "\<forall>e\<in>set es. \<not> edgeAngle w a e < min s threshold \<Longrightarrow> selectLoop w a es (s, k) = (s, k)"
  by (induction es) (auto simp: Let_def)

text \<open>
  On a filtered list the loop ends on the first position of the unfiltered list that
  passes the filter and attains the least angle among those that pass, whatever the pair
  held before, as long as that angle is under the running bound.
\<close>

lemma selectLoop_filter_first:
  "i < length es \<Longrightarrow> P (es ! i) \<Longrightarrow> edgeAngle w a (es ! i) < min s threshold
   \<Longrightarrow> \<forall>j<length es. P (es ! j) \<longrightarrow> edgeAngle w a (es ! i) \<le> edgeAngle w a (es ! j)
   \<Longrightarrow> \<forall>j<i. P (es ! j) \<longrightarrow> edgeAngle w a (es ! i) < edgeAngle w a (es ! j)
   \<Longrightarrow> selectLoop w a (filter P es) (s, k) = (edgeAngle w a (es ! i), Some (to (es ! i)))"
proof (induction es arbitrary: s k i)
  case Nil
  then show ?case by simp
next
  case (Cons e es)
  show ?case
  proof (cases i)
    case 0
    have "\<forall>e'\<in>set (filter P es). \<not> edgeAngle w a e' < min (edgeAngle w a e) threshold"
    proof
      fix e' assume "e' \<in> set (filter P es)"
      then have "e' \<in> set es" "P e'" by simp_all
      then obtain j where "j < length es" "es ! j = e'" by (auto simp: in_set_conv_nth)
      with Cons.prems(4) 0 \<open>P e'\<close> have "edgeAngle w a e \<le> edgeAngle w a e'" by force
      then show "\<not> edgeAngle w a e' < min (edgeAngle w a e) threshold" by simp
    qed
    then have "selectLoop w a (filter P es) (edgeAngle w a e, Some (to e))
                 = (edgeAngle w a e, Some (to e))"
      by (rule selectLoop_unchanged)
    with Cons.prems(2,3) 0 show ?thesis by (auto simp: Let_def)
  next
    case (Suc i')
    have A: "i' < length es" using Cons.prems(1) Suc by simp
    have Pi: "P (es ! i')" using Cons.prems(2) Suc by simp
    have B: "\<forall>j<length es. P (es ! j) \<longrightarrow> edgeAngle w a (es ! i') \<le> edgeAngle w a (es ! j)"
      using Cons.prems(4) Suc by force
    have C: "\<forall>j<i'. P (es ! j) \<longrightarrow> edgeAngle w a (es ! i') < edgeAngle w a (es ! j)"
      using Cons.prems(5) Suc by force
    have D: "edgeAngle w a (es ! i') < min s threshold" using Cons.prems(3) Suc by simp
    show ?thesis
    proof (cases "P e")
      case False
      from Cons.IH[OF A Pi D B C] False Suc show ?thesis by simp
    next
      case True
      have lt: "edgeAngle w a (es ! i') < edgeAngle w a e"
        using Cons.prems(5) Suc True by force
      show ?thesis
      proof (cases "edgeAngle w a e < min s threshold")
        case accept: True
        have "edgeAngle w a (es ! i') < min (edgeAngle w a e) threshold" using lt D by simp
        from Cons.IH[OF A Pi this B C] accept True Suc show ?thesis by (auto simp: Let_def)
      next
        case reject: False
        from Cons.IH[OF A Pi D B C] reject True Suc show ?thesis by (auto simp: Let_def)
      qed
    qed
  qed
qed

text \<open>When some edge is under the bound, the loop ends on an edge of least angle.\<close>

lemma selectLoop_min:
  "\<exists>e\<in>set es. edgeAngle w a e < min s threshold \<Longrightarrow>
   \<exists>e\<in>set es. selectLoop w a es (s, k) = (edgeAngle w a e, Some (to e))
      \<and> edgeAngle w a e < min s threshold \<and> (\<forall>e'\<in>set es. edgeAngle w a e \<le> edgeAngle w a e')"
proof (induction es arbitrary: s k)
  case Nil
  then show ?case by simp
next
  case (Cons e es)
  show ?case
  proof (cases "edgeAngle w a e < min s threshold")
    case True
    show ?thesis
    proof (cases "\<exists>e'\<in>set es. edgeAngle w a e' < min (edgeAngle w a e) threshold")
      case better: True
      from Cons.IH[OF better, of "Some (to e)"] obtain x where x: "x \<in> set es"
        "selectLoop w a es (edgeAngle w a e, Some (to e)) = (edgeAngle w a x, Some (to x))"
        "edgeAngle w a x < min (edgeAngle w a e) threshold"
        "\<forall>e'\<in>set es. edgeAngle w a x \<le> edgeAngle w a e'" by blast
      then show ?thesis using True by (intro bexI[of _ x]) (auto simp: Let_def)
    next
      case False
      then have "selectLoop w a es (edgeAngle w a e, Some (to e)) = (edgeAngle w a e, Some (to e))"
        by (intro selectLoop_unchanged) simp
      moreover have "\<forall>e'\<in>set es. edgeAngle w a e \<le> edgeAngle w a e'"
        using False True by (auto simp: not_less min_le_iff_disj)
      ultimately show ?thesis using True by (intro bexI[of _ e]) (auto simp: Let_def)
    qed
  next
    case False
    with Cons.prems have ex: "\<exists>e'\<in>set es. edgeAngle w a e' < min s threshold" by auto
    from Cons.IH[OF ex, of k] obtain x where x: "x \<in> set es"
        "selectLoop w a es (s, k) = (edgeAngle w a x, Some (to x))"
        "edgeAngle w a x < min s threshold"
        "\<forall>e'\<in>set es. edgeAngle w a x \<le> edgeAngle w a e'" by blast
    then show ?thesis using False by (intro bexI[of _ x]) (auto simp: Let_def)
  qed
qed

subsection \<open>Angles of the sample edges\<close>

lemma wrapAngle_id: "- pi < x \<Longrightarrow> x \<le> pi \<Longrightarrow> wrapAngle x = x"
proof -
  assume a: "- pi < x" "x \<le> pi"
  have "\<lceil>(x - pi) / (2 * pi)\<rceil> = 0"
  proof (rule ceiling_unique)
    show "of_int 0 - 1 < (x - pi) / (2 * pi)" using a pi_gt_zero by (simp add: field_simps)
    show "(x - pi) / (2 * pi) \<le> of_int 0" using a pi_gt_zero by (simp add: field_simps)
  qed
  then show ?thesis by (simp add: wrapAngle_def)
qed

lemma wrapAngle_range: "- pi < wrapAngle x \<and> wrapAngle x \<le> pi"
proof -
  define c :: real where "c = of_int \<lceil>(x - pi) / (2 * pi)\<rceil>"
  have 1: "(x - pi) / (2 * pi) \<le> c" unfolding c_def by (rule le_of_int_ceiling)
  have 2: "c - 1 < (x - pi) / (2 * pi)" unfolding c_def by linarith
  from 1 have 3: "x - pi \<le> c * (2 * pi)" using pi_gt_zero by (simp add: pos_divide_le_eq)
  from 2 have 4: "(c - 1) * (2 * pi) < x - pi" using pi_gt_zero by (simp add: pos_less_divide_eq)
  have 5: "wrapAngle x = x - c * (2 * pi)" by (simp add: wrapAngle_def c_def)
  from 4 have 6: "c * (2 * pi) - 2 * pi < x - pi" by (simp add: algebra_simps)
  from 3 6 show ?thesis unfolding 5 by linarith
qed

lemma wrapAngle_small: "\<bar>x\<bar> < pi \<Longrightarrow> wrapAngle x = x"
  by (rule wrapAngle_id) simp_all

lemma to_edge: "to (edge k d az) = k"
  by (simp add: edge_def)

lemma direction_edge: "direction (data (edge k d az)) = d"
  by (simp add: edge_def)

lemma edgeAngle_small:
  "\<bar>az - a\<bar> < pi \<Longrightarrow> edgeAngle wrapAngle a (edge k d az) = \<bar>az - a\<bar>"
  by (simp add: edgeAngle_def edge_def wrapAngle_small)

text \<open>The code's angle of an edge is the absolute wrapped difference, written out.\<close>

lemma wrapped_difference:
  "\<bar>wrapAngle (worldMotionAzimuth (data e) - a)\<bar> = edgeAngle wrapAngle a e"
  by (simp add: edgeAngle_def)

text \<open>Against a desired angle of 40 degrees: 40, 10 and 130 degrees.\<close>

lemma angle_A: "edgeAngle wrapAngle (2 * pi / 9) (edge ''A'' StepForward 0) = 2 * pi / 9"
proof -
  have "edgeAngle wrapAngle (2 * pi / 9) (edge ''A'' StepForward 0) = \<bar>0 - 2 * pi / 9\<bar>"
    by (rule edgeAngle_small) (use pi_gt_zero in simp)
  also have "\<dots> = 2 * pi / 9" using pi_gt_zero by simp
  finally show ?thesis .
qed

lemma angle_B: "edgeAngle wrapAngle (2 * pi / 9) (edge ''B'' Pano (5 * pi / 18)) = pi / 18"
proof -
  have "edgeAngle wrapAngle (2 * pi / 9) (edge ''B'' Pano (5 * pi / 18))
          = \<bar>5 * pi / 18 - 2 * pi / 9\<bar>"
    by (rule edgeAngle_small) (use pi_gt_zero in simp)
  also have "\<dots> = pi / 18" using pi_gt_zero by simp
  finally show ?thesis .
qed

lemma angle_C:
  "edgeAngle wrapAngle (2 * pi / 9) (edge ''C'' StepForward (17 * pi / 18)) = 13 * pi / 18"
proof -
  have "edgeAngle wrapAngle (2 * pi / 9) (edge ''C'' StepForward (17 * pi / 18))
          = \<bar>17 * pi / 18 - 2 * pi / 9\<bar>"
    by (rule edgeAngle_small) (use pi_gt_zero in simp)
  also have "\<dots> = 13 * pi / 18" using pi_gt_zero by simp
  finally show ?thesis .
qed

text \<open>The edge at 170 degrees against a desired angle of 10 degrees: 160 degrees.\<close>

lemma angle_C_alone:
  "edgeAngle wrapAngle (pi / 18) (edge ''C'' StepForward (17 * pi / 18)) = 8 * pi / 9"
proof -
  have "edgeAngle wrapAngle (pi / 18) (edge ''C'' StepForward (17 * pi / 18))
          = \<bar>17 * pi / 18 - pi / 18\<bar>"
    by (rule edgeAngle_small) (use pi_gt_zero in simp)
  also have "\<dots> = 8 * pi / 9" using pi_gt_zero by simp
  finally show ?thesis .
qed

text \<open>Against a desired angle of 0: 40, 30, 0 and 30 degrees.\<close>

lemma angle_far: "edgeAngle wrapAngle 0 (edge ''far'' StepForward (2 * pi / 9)) = 2 * pi / 9"
proof -
  have "edgeAngle wrapAngle 0 (edge ''far'' StepForward (2 * pi / 9)) = \<bar>2 * pi / 9 - 0\<bar>"
    by (rule edgeAngle_small) (use pi_gt_zero in simp)
  also have "\<dots> = 2 * pi / 9" using pi_gt_zero by simp
  finally show ?thesis .
qed

lemma angle_plus: "edgeAngle wrapAngle 0 (edge ''plus'' StepForward (pi / 6)) = pi / 6"
proof -
  have "edgeAngle wrapAngle 0 (edge ''plus'' StepForward (pi / 6)) = \<bar>pi / 6 - 0\<bar>"
    by (rule edgeAngle_small) (use pi_gt_zero in simp)
  also have "\<dots> = pi / 6" using pi_gt_zero by simp
  finally show ?thesis .
qed

lemma angle_minus: "edgeAngle wrapAngle 0 (edge ''minus'' StepForward (- pi / 6)) = pi / 6"
proof -
  have "edgeAngle wrapAngle 0 (edge ''minus'' StepForward (- pi / 6)) = \<bar>- pi / 6 - 0\<bar>"
    by (rule edgeAngle_small) (use pi_gt_zero in simp)
  also have "\<dots> = pi / 6" using pi_gt_zero by simp
  finally show ?thesis .
qed

subsection \<open>Selection\<close>

lemma set_candidateEdges:
  "set (candidateEdges d es) = {e \<in> set es. direction (data e) = d \<or> direction (data e) = Pano}"
  by (auto simp: candidateEdges_def)

lemma selectEdge_nearest:
  "if \<exists>e\<in>set (candidateEdges d es). edgeAngle w a e < pi / 4
   then \<exists>e\<in>set (candidateEdges d es).
          selectEdge w es d a = Some (to e) \<and> edgeAngle w a e < pi / 4
          \<and> (\<forall>e'\<in>set (candidateEdges d es). edgeAngle w a e \<le> edgeAngle w a e')
   else selectEdge w es d a = None"
proof (cases "\<exists>e\<in>set (candidateEdges d es). edgeAngle w a e < pi / 4")
  case True
  let ?cs = "candidateEdges d es"
  from True have "\<exists>e\<in>set ?cs. edgeAngle w a e < min MAX_VALUE threshold"
    by (simp only: less_min_MAX_VALUE)
  from selectLoop_min[OF this, of None] obtain x where x: "x \<in> set ?cs"
    "selectLoop w a ?cs (MAX_VALUE, None) = (edgeAngle w a x, Some (to x))"
    "edgeAngle w a x < min MAX_VALUE threshold"
    "\<forall>e'\<in>set ?cs. edgeAngle w a x \<le> edgeAngle w a e'" by blast
  from x(3) have "edgeAngle w a x < pi / 4"
    by (simp only: less_min_MAX_VALUE)
  with x(1,2,4) have "\<exists>e\<in>set ?cs.
           selectEdge w es d a = Some (to e) \<and> edgeAngle w a e < pi / 4
           \<and> (\<forall>e'\<in>set ?cs. edgeAngle w a e \<le> edgeAngle w a e')"
    by (intro bexI[of _ x]) (simp_all add: selectEdge_def)
  with True show ?thesis by simp
next
  case False
  let ?cs = "candidateEdges d es"
  from False have "\<forall>e\<in>set ?cs. \<not> edgeAngle w a e < min MAX_VALUE threshold"
    unfolding less_min_MAX_VALUE by blast
  then have "selectLoop w a ?cs (MAX_VALUE, None) = (MAX_VALUE, None)"
    by (rule selectLoop_unchanged)
  with False show ?thesis by (simp add: selectEdge_def)
qed

text \<open>
  C1.  For every edge list, requested step direction and desired navigation angle, the
  selector considers exactly the edges whose direction is the requested one or \<open>Pano\<close>.
  If one of these has an absolute wrapped angular difference
  \<open>|wrapAngle(worldMotionAzimuth - desiredAngle)|\<close> strictly under \<open>\<pi>/4\<close>, the selector
  returns the target key of one of them whose difference is the least among them and is
  under \<open>\<pi>/4\<close>; otherwise it returns none.  A step key pressed on a node whose edge
  list is assigned issues \<open>moveToKey\<close> for the returned key and issues no move when none
  is returned.
\<close>

theorem selector_picks_nearest_within_threshold:
  "set (candidateEdges d es) = {e \<in> set es. direction (data e) = d \<or> direction (data e) = Pano}
   \<and> (if \<exists>e\<in>set es. (direction (data e) = d \<or> direction (data e) = Pano)
                  \<and> \<bar>w (worldMotionAzimuth (data e) - a)\<bar> < pi / 4
      then \<exists>e\<in>set es. (direction (data e) = d \<or> direction (data e) = Pano)
             \<and> selectEdge w es d a = Some (to e)
             \<and> \<bar>w (worldMotionAzimuth (data e) - a)\<bar> < pi / 4
             \<and> (\<forall>e'\<in>set es. direction (data e') = d \<or> direction (data e') = Pano \<longrightarrow>
                   \<bar>w (worldMotionAzimuth (data e) - a)\<bar>
                     \<le> \<bar>w (worldMotionAzimuth (data e') - a)\<bar>)
      else selectEdge w es d a = None)
   \<and> (edges n = Some es \<and> panoramaKey ev phi = Some (a0, Some d, None) \<longrightarrow>
        navigatePanorama w ev n phi =
          Inr \<lparr>defaultPrevented = True,
               issued = map_option MoveToKey (selectEdge w es d (w a0))\<rparr>)"
proof (intro conjI)
  show "set (candidateEdges d es)
          = {e \<in> set es. direction (data e) = d \<or> direction (data e) = Pano}"
    by (rule set_candidateEdges)
next
  let ?C = "\<lambda>e. direction (data e) = d \<or> direction (data e) = Pano"
  let ?m = "\<lambda>e. \<bar>w (worldMotionAzimuth (data e) - a)\<bar>"
  have m: "\<And>e. edgeAngle w a e = ?m e" by (simp add: edgeAngle_def)
  have mem: "\<And>e. e \<in> set (candidateEdges d es) \<longleftrightarrow> e \<in> set es \<and> ?C e"
    by (simp add: set_candidateEdges)
  note N = selectEdge_nearest [of d es w a]
  show "if \<exists>e\<in>set es. ?C e \<and> ?m e < pi / 4
      then \<exists>e\<in>set es. ?C e \<and> selectEdge w es d a = Some (to e) \<and> ?m e < pi / 4
             \<and> (\<forall>e'\<in>set es. ?C e' \<longrightarrow> ?m e \<le> ?m e')
      else selectEdge w es d a = None"
  proof (cases "\<exists>e\<in>set es. ?C e \<and> ?m e < pi / 4")
    case True
    then have ex: "\<exists>e\<in>set (candidateEdges d es). edgeAngle w a e < pi / 4"
      unfolding m mem Bex_def by blast
    with N obtain x where x: "x \<in> set (candidateEdges d es)"
      "selectEdge w es d a = Some (to x)" "edgeAngle w a x < pi / 4"
      "\<forall>e'\<in>set (candidateEdges d es). edgeAngle w a x \<le> edgeAngle w a e'"
      by auto
    from x(1) have xs: "x \<in> set es" "?C x" by (simp_all add: mem)
    from x(3) have xl: "?m x < pi / 4" by (simp only: m)
    have xm: "\<forall>e'\<in>set es. ?C e' \<longrightarrow> ?m x \<le> ?m e'"
    proof (intro ballI impI)
      fix e' assume "e' \<in> set es" "?C e'"
      then have "e' \<in> set (candidateEdges d es)" by (simp add: mem)
      with x(4) have "edgeAngle w a x \<le> edgeAngle w a e'" by blast
      then show "?m x \<le> ?m e'" by (simp only: m)
    qed
    from xs x(2) xl xm
    have "\<exists>e\<in>set es. ?C e \<and> selectEdge w es d a = Some (to e) \<and> ?m e < pi / 4
             \<and> (\<forall>e'\<in>set es. ?C e' \<longrightarrow> ?m e \<le> ?m e')"
      by (intro bexI[of _ x] conjI)
    with True show ?thesis by (simp only: if_True)
  next
    case False
    then have "\<not> (\<exists>e\<in>set (candidateEdges d es). edgeAngle w a e < pi / 4)"
      unfolding m mem Bex_def by blast
    with N have "selectEdge w es d a = None" by simp
    with False show ?thesis by (simp only: if_False)
  qed
next
  show "edges n = Some es \<and> panoramaKey ev phi = Some (a0, Some d, None) \<longrightarrow>
        navigatePanorama w ev n phi =
          Inr \<lparr>defaultPrevented = True,
               issued = map_option MoveToKey (selectEdge w es d (w a0))\<rparr>"
    by (simp add: navigatePanorama_def)
qed

text \<open>On a node whose edge list is still null a step key makes the filter throw.\<close>

lemma navigatePanorama_null_edges:
  "edges n = None \<Longrightarrow> panoramaKey ev phi = Some (a0, Some d, None)
   \<Longrightarrow> navigatePanorama w ev n phi = Inl TypeError"
  by (simp add: navigatePanorama_def)

text \<open>
  With a desired angle of 40 degrees the panoramic edge at 50 degrees is returned, not the
  forward edge of least azimuth; an edge at 170 degrees alone, against 10 degrees, gives
  none.
\<close>

theorem selector_picks_nearest_within_threshold_witness:
  "(\<exists>e\<in>set threeEdges. (direction (data e) = StepForward \<or> direction (data e) = Pano)
        \<and> \<bar>wrapAngle (worldMotionAzimuth (data e) - 2 * pi / 9)\<bar> < pi / 4)
   \<and> selectEdge wrapAngle threeEdges StepForward (2 * pi / 9) = Some ''B''
   \<and> edges (sampleNode Undefined None (Some threeEdges)) = Some threeEdges
   \<and> panoramaKey upKey (2 * pi / 9) = Some (2 * pi / 9, Some StepForward, None)
   \<and> navigatePanorama wrapAngle upKey (sampleNode Undefined None (Some threeEdges)) (2 * pi / 9)
       = Inr \<lparr>defaultPrevented = True, issued = Some (MoveToKey ''B'')\<rparr>
   \<and> \<not> (\<exists>e\<in>set [edge ''C'' StepForward (17 * pi / 18)].
           (direction (data e) = StepForward \<or> direction (data e) = Pano)
           \<and> \<bar>wrapAngle (worldMotionAzimuth (data e) - pi / 18)\<bar> < pi / 4)
   \<and> selectEdge wrapAngle [edge ''C'' StepForward (17 * pi / 18)] StepForward (pi / 18) = None"
proof -
  let ?n = "sampleNode Undefined None (Some threeEdges)"
  have h: "\<exists>e\<in>set threeEdges. (direction (data e) = StepForward \<or> direction (data e) = Pano)
        \<and> \<bar>wrapAngle (worldMotionAzimuth (data e) - 2 * pi / 9)\<bar> < pi / 4"
    unfolding wrapped_difference
    by (rule bexI [of _ "edge ''B'' Pano (5 * pi / 18)"])
      (use pi_gt_zero in \<open>simp_all add: threeEdges_def direction_edge angle_B\<close>)
  have e: "edges ?n = Some threeEdges" by (simp add: sampleNode_def)
  have k: "panoramaKey upKey (2 * pi / 9) = Some (2 * pi / 9, Some StepForward, None)"
    by (simp add: panoramaKey_def upKey_def)
  have w: "wrapAngle (2 * pi / 9) = 2 * pi / 9"
    by (rule wrapAngle_small) (use pi_gt_zero in simp)
  note T = selector_picks_nearest_within_threshold
      [of StepForward threeEdges wrapAngle "2 * pi / 9" ?n upKey "2 * pi / 9" "2 * pi / 9"]
  from T h have "\<exists>e\<in>set threeEdges.
        (direction (data e) = StepForward \<or> direction (data e) = Pano)
      \<and> selectEdge wrapAngle threeEdges StepForward (2 * pi / 9) = Some (to e)
      \<and> (\<forall>e'\<in>set threeEdges. direction (data e') = StepForward \<or> direction (data e') = Pano \<longrightarrow>
            edgeAngle wrapAngle (2 * pi / 9) e \<le> edgeAngle wrapAngle (2 * pi / 9) e')"
    unfolding wrapped_difference by auto
  then have s: "selectEdge wrapAngle threeEdges StepForward (2 * pi / 9) = Some ''B''"
    using pi_gt_zero
    by (auto simp: threeEdges_def direction_edge angle_A angle_B angle_C to_edge)
  have m: "navigatePanorama wrapAngle upKey ?n (2 * pi / 9)
       = Inr \<lparr>defaultPrevented = True, issued = Some (MoveToKey ''B'')\<rparr>"
    using T e k s by (simp add: w)
  have g: "\<not> (\<exists>e\<in>set [edge ''C'' StepForward (17 * pi / 18)].
           (direction (data e) = StepForward \<or> direction (data e) = Pano)
           \<and> \<bar>wrapAngle (worldMotionAzimuth (data e) - pi / 18)\<bar> < pi / 4)"
    unfolding wrapped_difference using pi_gt_zero by (simp add: angle_C_alone)
  have z: "selectEdge wrapAngle [edge ''C'' StepForward (17 * pi / 18)] StepForward (pi / 18) = None"
    using selector_picks_nearest_within_threshold
      [of StepForward "[edge ''C'' StepForward (17 * pi / 18)]" wrapAngle "pi / 18"] g
    by simp
  from h s e k m g z show ?thesis by simp
qed

text \<open>
  C2.  Ties are won by the edge that comes first in the node's edge list: the edge at the
  first position of the list that is a candidate (its direction is the requested one or
  \<open>Pano\<close>) and whose absolute wrapped angular difference
  \<open>|wrapAngle(worldMotionAzimuth - desiredAngle)|\<close> is under \<open>\<pi>/4\<close> and the least among the
  candidates is the one whose target key is returned, however many candidates later in
  the list have exactly the same difference.  The comparison in the loop is strict and
  the filter keeps the order of the list, so a later edge at the same distance never
  replaces it.
\<close>

theorem first_minimal_edge_wins:
  assumes "i < length es"
    and "direction (data (es ! i)) = d \<or> direction (data (es ! i)) = Pano"
    and "\<bar>w (worldMotionAzimuth (data (es ! i)) - a)\<bar> < pi / 4"
    and "\<forall>j<length es. direction (data (es ! j)) = d \<or> direction (data (es ! j)) = Pano \<longrightarrow>
           \<bar>w (worldMotionAzimuth (data (es ! i)) - a)\<bar>
             \<le> \<bar>w (worldMotionAzimuth (data (es ! j)) - a)\<bar>"
    and "\<forall>j<i. direction (data (es ! j)) = d \<or> direction (data (es ! j)) = Pano \<longrightarrow>
           \<bar>w (worldMotionAzimuth (data (es ! j)) - a)\<bar>
             \<noteq> \<bar>w (worldMotionAzimuth (data (es ! i)) - a)\<bar>"
  shows "selectEdge w es d a = Some (to (es ! i))"
proof -
  let ?P = "\<lambda>e. direction (data e) = Pano \<or> direction (data e) = d"
  have m: "\<And>e. \<bar>w (worldMotionAzimuth (data e) - a)\<bar> = edgeAngle w a e"
    by (simp add: edgeAngle_def)
  have P: "?P (es ! i)" using assms(2) by blast
  have lt: "edgeAngle w a (es ! i) < min MAX_VALUE threshold"
    using assms(3) by (simp only: less_min_MAX_VALUE m)
  have le: "\<forall>j<length es. ?P (es ! j) \<longrightarrow> edgeAngle w a (es ! i) \<le> edgeAngle w a (es ! j)"
    using assms(4) unfolding m by blast
  have strict: "\<forall>j<i. ?P (es ! j) \<longrightarrow> edgeAngle w a (es ! i) < edgeAngle w a (es ! j)"
  proof (intro allI impI)
    fix j assume j: "j < i" "?P (es ! j)"
    from j(1) assms(1) have "j < length es" by simp
    with le j(2) have "edgeAngle w a (es ! i) \<le> edgeAngle w a (es ! j)" by blast
    moreover from j assms(5) have "edgeAngle w a (es ! j) \<noteq> edgeAngle w a (es ! i)"
      unfolding m by blast
    ultimately show "edgeAngle w a (es ! i) < edgeAngle w a (es ! j)" by simp
  qed
  from selectLoop_filter_first [of i es ?P w a MAX_VALUE None, OF assms(1) P lt le strict]
  show ?thesis by (simp add: selectEdge_def candidateEdges_def)
qed

text \<open>
  In \<open>tiedEdges\<close> the edges at positions 1 and 3 are both at 30 degrees from the desired
  angle 0; the edge at position 0 is farther and the edge at position 2, at 0 degrees, is
  no candidate.  The key of position 1 is returned.
\<close>

theorem first_minimal_edge_wins_witness:
  "\<bar>wrapAngle (worldMotionAzimuth (data (tiedEdges ! 1)) - 0)\<bar>
     = \<bar>wrapAngle (worldMotionAzimuth (data (tiedEdges ! 3)) - 0)\<bar>
   \<and> (1::nat) < length tiedEdges
   \<and> (direction (data (tiedEdges ! 1)) = StepForward \<or> direction (data (tiedEdges ! 1)) = Pano)
   \<and> (direction (data (tiedEdges ! 3)) = StepForward \<or> direction (data (tiedEdges ! 3)) = Pano)
   \<and> \<bar>wrapAngle (worldMotionAzimuth (data (tiedEdges ! 1)) - 0)\<bar> < pi / 4
   \<and> to (tiedEdges ! 1) = ''plus'' \<and> to (tiedEdges ! 3) = ''minus''
   \<and> selectEdge wrapAngle tiedEdges StepForward 0 = Some ''plus''"
proof -
  have n: "tiedEdges ! 0 = edge ''far'' StepForward (2 * pi / 9)"
    "tiedEdges ! 1 = edge ''plus'' StepForward (pi / 6)"
    "tiedEdges ! Suc 0 = edge ''plus'' StepForward (pi / 6)"
    "tiedEdges ! 2 = edge ''left'' StepLeft 0"
    "tiedEdges ! 3 = edge ''minus'' StepForward (- pi / 6)"
    and len: "length tiedEdges = 4"
    by (simp_all add: tiedEdges_def)
  have idx: "\<And>j. j < length tiedEdges \<Longrightarrow> j = 0 \<or> j = 1 \<or> j = 2 \<or> j = 3"
    unfolding len by arith
  have a: "edgeAngle wrapAngle 0 (tiedEdges ! 0) = 2 * pi / 9"
    "edgeAngle wrapAngle 0 (tiedEdges ! 1) = pi / 6"
    "edgeAngle wrapAngle 0 (tiedEdges ! Suc 0) = pi / 6"
    "edgeAngle wrapAngle 0 (tiedEdges ! 3) = pi / 6"
    by (simp_all only: n angle_far angle_plus angle_minus)
  have d: "direction (data (tiedEdges ! 0)) = StepForward"
    "direction (data (tiedEdges ! 1)) = StepForward"
    "direction (data (tiedEdges ! Suc 0)) = StepForward"
    "direction (data (tiedEdges ! 2)) = StepLeft"
    "direction (data (tiedEdges ! 3)) = StepForward"
    by (simp_all only: n direction_edge)
  have h1: "(1::nat) < length tiedEdges" by (simp add: len)
  have h2: "direction (data (tiedEdges ! 1)) = StepForward \<or> direction (data (tiedEdges ! 1)) = Pano"
    by (simp add: d)
  have h3: "\<bar>wrapAngle (worldMotionAzimuth (data (tiedEdges ! 1)) - 0)\<bar> < pi / 4"
    unfolding wrapped_difference using pi_gt_zero by (simp add: a)
  have h4: "\<forall>j<length tiedEdges.
      direction (data (tiedEdges ! j)) = StepForward \<or> direction (data (tiedEdges ! j)) = Pano \<longrightarrow>
        \<bar>wrapAngle (worldMotionAzimuth (data (tiedEdges ! 1)) - 0)\<bar>
          \<le> \<bar>wrapAngle (worldMotionAzimuth (data (tiedEdges ! j)) - 0)\<bar>"
    unfolding wrapped_difference
  proof (intro allI impI)
    fix j assume "j < length tiedEdges"
      and c: "direction (data (tiedEdges ! j)) = StepForward \<or> direction (data (tiedEdges ! j)) = Pano"
    from idx [OF this(1)] c
    show "edgeAngle wrapAngle 0 (tiedEdges ! 1) \<le> edgeAngle wrapAngle 0 (tiedEdges ! j)"
      using pi_gt_zero by (auto simp: a d)
  qed
  have h5: "\<forall>j<1.
      direction (data (tiedEdges ! j)) = StepForward \<or> direction (data (tiedEdges ! j)) = Pano \<longrightarrow>
        \<bar>wrapAngle (worldMotionAzimuth (data (tiedEdges ! j)) - 0)\<bar>
          \<noteq> \<bar>wrapAngle (worldMotionAzimuth (data (tiedEdges ! 1)) - 0)\<bar>"
    unfolding wrapped_difference using pi_gt_zero by (simp add: a)
  from first_minimal_edge_wins [of 1 tiedEdges StepForward wrapAngle 0, OF h1 h2 h3 h4 h5]
  have s: "selectEdge wrapAngle tiedEdges StepForward 0 = Some ''plus''"
    by (simp only: n to_edge)
  have t: "\<bar>wrapAngle (worldMotionAzimuth (data (tiedEdges ! 1)) - 0)\<bar>
     = \<bar>wrapAngle (worldMotionAzimuth (data (tiedEdges ! 3)) - 0)\<bar>"
    unfolding wrapped_difference by (simp only: a)
  have k: "to (tiedEdges ! 1) = ''plus''" "to (tiedEdges ! 3) = ''minus''"
    by (simp_all only: n to_edge)
  have h2': "direction (data (tiedEdges ! 3)) = StepForward \<or> direction (data (tiedEdges ! 3)) = Pano"
    by (simp add: d)
  from t h1 h2 h2' h3 k s show ?thesis by blast
qed

section \<open>Spatial: inverse rotation\<close>

lemma length_v_negate: "length_v (negate r) = length_v r"
  by (cases r) (simp add: length_v_def negate_def)

lemma unit_roundtrip_x:
  fixes x y z c s p q r :: real
  assumes "x * x + y * y + z * z = 1" "c * c + s * s = 1"
  shows "((1 - c) * (-x) * (-x) + c) * (((1 - c) * x * x + c) * p + ((1 - c) * x * y - s * z) * q + ((1 - c) * x * z + s * y) * r)
       + ((1 - c) * (-x) * (-y) - s * (-z)) * (((1 - c) * x * y + s * z) * p + ((1 - c) * y * y + c) * q + ((1 - c) * y * z - s * x) * r)
       + ((1 - c) * (-x) * (-z) + s * (-y)) * (((1 - c) * x * z - s * y) * p + ((1 - c) * y * z + s * x) * q + ((1 - c) * z * z + c) * r)
       = p"
  using assms by algebra


lemma unit_roundtrip_y:
  fixes x y z c s p q r :: real
  assumes "x * x + y * y + z * z = 1" "c * c + s * s = 1"
  shows "((1 - c) * (-x) * (-y) + s * (-z)) * (((1 - c) * x * x + c) * p + ((1 - c) * x * y - s * z) * q + ((1 - c) * x * z + s * y) * r)
       + ((1 - c) * (-y) * (-y) + c) * (((1 - c) * x * y + s * z) * p + ((1 - c) * y * y + c) * q + ((1 - c) * y * z - s * x) * r)
       + ((1 - c) * (-y) * (-z) - s * (-x)) * (((1 - c) * x * z - s * y) * p + ((1 - c) * y * z + s * x) * q + ((1 - c) * z * z + c) * r)
       = q"
  using assms by algebra

lemma unit_roundtrip_z:
  fixes x y z c s p q r :: real
  assumes "x * x + y * y + z * z = 1" "c * c + s * s = 1"
  shows "((1 - c) * (-x) * (-z) - s * (-y)) * (((1 - c) * x * x + c) * p + ((1 - c) * x * y - s * z) * q + ((1 - c) * x * z + s * y) * r)
       + ((1 - c) * (-y) * (-z) + s * (-x)) * (((1 - c) * x * y + s * z) * p + ((1 - c) * y * y + c) * q + ((1 - c) * y * z - s * x) * r)
       + ((1 - c) * (-z) * (-z) + c) * (((1 - c) * x * z - s * y) * p + ((1 - c) * y * z + s * x) * q + ((1 - c) * z * z + c) * r)
       = r"
  using assms by algebra

lemma makeRotationAxis_roundtrip:
  assumes u: "x * x + y * y + z * z = 1"
  shows "applyMatrix4 (applyMatrix4 (p, q, r) (makeRotationAxis (x, y, z) angle))
           (makeRotationAxis (- x, - y, - z) angle) = (p, q, r)"
proof -
  define c where "c = cos angle"
  define s where "s = sin angle"
  have cs: "c * c + s * s = 1"
    using sin_cos_squared_add2 [of angle] by (simp add: power2_eq_square c_def s_def)
  have "applyMatrix4 (applyMatrix4 (p, q, r) (makeRotationAxis (x, y, z) angle))
           (makeRotationAxis (- x, - y, - z) angle)
      = (((1 - c) * (-x) * (-x) + c) * (((1 - c) * x * x + c) * p + ((1 - c) * x * y - s * z) * q + ((1 - c) * x * z + s * y) * r)
       + ((1 - c) * (-x) * (-y) - s * (-z)) * (((1 - c) * x * y + s * z) * p + ((1 - c) * y * y + c) * q + ((1 - c) * y * z - s * x) * r)
       + ((1 - c) * (-x) * (-z) + s * (-y)) * (((1 - c) * x * z - s * y) * p + ((1 - c) * y * z + s * x) * q + ((1 - c) * z * z + c) * r),
         ((1 - c) * (-x) * (-y) + s * (-z)) * (((1 - c) * x * x + c) * p + ((1 - c) * x * y - s * z) * q + ((1 - c) * x * z + s * y) * r)
       + ((1 - c) * (-y) * (-y) + c) * (((1 - c) * x * y + s * z) * p + ((1 - c) * y * y + c) * q + ((1 - c) * y * z - s * x) * r)
       + ((1 - c) * (-y) * (-z) - s * (-x)) * (((1 - c) * x * z - s * y) * p + ((1 - c) * y * z + s * x) * q + ((1 - c) * z * z + c) * r),
         ((1 - c) * (-x) * (-z) - s * (-y)) * (((1 - c) * x * x + c) * p + ((1 - c) * x * y - s * z) * q + ((1 - c) * x * z + s * y) * r)
       + ((1 - c) * (-y) * (-z) + s * (-x)) * (((1 - c) * x * y + s * z) * p + ((1 - c) * y * y + c) * q + ((1 - c) * y * z - s * x) * r)
       + ((1 - c) * (-z) * (-z) + c) * (((1 - c) * x * z - s * y) * p + ((1 - c) * y * z + s * x) * q + ((1 - c) * z * z + c) * r))"
    by (simp add: applyMatrix4_def makeRotationAxis_def Let_def c_def s_def)
  also have "\<dots> = (p, q, r)"
    by (simp only: unit_roundtrip_x [OF u cs] unit_roundtrip_y [OF u cs] unit_roundtrip_z [OF u cs])
  finally show ?thesis .
qed

lemma makeRotationAxis_zero_angle: "applyMatrix4 v (makeRotationAxis axis 0) = v"
  by (cases v, cases axis) (simp add: applyMatrix4_def makeRotationAxis_def)

lemma normalize_v_unit:
  assumes "length_v (a, b, c) \<noteq> 0"
  shows "\<exists>x y z. normalize_v (a, b, c) = (x, y, z) \<and> normalize_v (negate (a, b, c)) = (- x, - y, - z)
           \<and> x * x + y * y + z * z = 1"
proof -
  let ?l = "length_v (a, b, c)"
  have nn: "0 \<le> a * a + b * b + c * c" by (simp add: add_nonneg_nonneg)
  have sq: "?l * ?l = a * a + b * b + c * c"
    using nn by (simp add: length_v_def)
  have n1: "normalize_v (a, b, c) = (a * (1 / ?l), b * (1 / ?l), c * (1 / ?l))"
    using assms by (simp add: normalize_v_def divideScalar_def)
  have n2: "normalize_v (negate (a, b, c)) = (- (a * (1 / ?l)), - (b * (1 / ?l)), - (c * (1 / ?l)))"
    using assms length_v_negate [of "(a, b, c)"]
    by (simp add: normalize_v_def divideScalar_def negate_def)
  have "(a * (1 / ?l)) * (a * (1 / ?l)) + (b * (1 / ?l)) * (b * (1 / ?l)) + (c * (1 / ?l)) * (c * (1 / ?l))
          = (a * a + b * b + c * c) / (?l * ?l)"
    by (simp add: add_divide_distrib)
  also have "\<dots> = (?l * ?l) / (?l * ?l)" by (simp only: sq)
  also have "\<dots> = 1" using assms by simp
  finally show ?thesis using n1 n2 by blast
qed

text \<open>
  C7.  Over exact arithmetic, rotating a vector by an angle-axis rotation \<open>r\<close> and then
  by the component-wise negation of \<open>r\<close> returns the vector, for every vector and
  every \<open>r\<close> (the zero rotation included: it is the identity).
\<close>

theorem rotate_then_inverse_is_identity: "rotate_v (rotate_v v r) (negate r) = v"
proof (cases r)
  case (fields a b c)
  obtain p q s where v: "v = (p, q, s)" by (cases v)
  show ?thesis
  proof (cases "length_v r = 0")
    case True
    then show ?thesis
      by (simp add: rotate_v_def rotationMatrix_def length_v_negate makeRotationAxis_zero_angle)
  next
    case False
    with fields obtain x y z where n: "normalize_v r = (x, y, z)"
      "normalize_v (negate r) = (- x, - y, - z)" "x * x + y * y + z * z = 1"
      using normalize_v_unit [of a b c] by auto
    show ?thesis
      using makeRotationAxis_roundtrip [OF n(3), of p q s "length_v r"]
      by (simp add: rotate_v_def rotationMatrix_def length_v_negate n v)
  qed
qed

section \<open>Asset caching: streams and the combined operation\<close>

subsection \<open>Streams\<close>

lemma terminated_simps [simp]:
  "terminated [] = False"
  "terminated (ns @ ms) = (terminated ns \<or> terminated ms)"
  "terminated (x # ns) = (terminal x \<or> terminated ns)"
  by (simp_all add: terminated_def)

lemma not_terminated_no_Complete: "\<not> terminated ns \<Longrightarrow> OnComplete \<notin> set ns"
  by (induction ns) auto

lemma not_terminated_no_Error: "\<not> terminated ns \<Longrightarrow> OnError e \<notin> set ns"
  by (induction ns) auto

lemma values_of_append [simp]: "values_of (ns @ ms) = values_of ns @ values_of ms"
  by (induction ns rule: values_of.induct) simp_all

lemma lastValue_simps [simp]:
  "lastValue [] = None"
  "lastValue (ns @ [OnNext v]) = Some v"
  "lastValue (ns @ [OnComplete]) = lastValue ns"
  "lastValue (ns @ [OnError e]) = lastValue ns"
  by (simp_all add: lastValue_def)

lemma lastValue_Some_iff: "(\<exists>v. lastValue ns = Some v) \<longleftrightarrow> (\<exists>v. OnNext v \<in> set ns)"
proof -
  have "values_of ns \<noteq> [] \<longleftrightarrow> (\<exists>v. OnNext v \<in> set ns)"
    by (induction ns rule: values_of.induct) auto
  then show ?thesis by (auto simp: lastValue_def)
qed

lemma wf_stream_Nil [simp]: "wf_stream []"
  by (simp add: wf_stream_def)

lemma wf_stream_snoc:
  "wf_stream (ns @ [x]) \<longleftrightarrow>
     wf_stream ns \<and> \<not> terminated ns \<and>
     (x = OnComplete \<longrightarrow> (\<exists>v. lastValue ns = Some v \<and> object v \<noteq> None))"
  by (auto simp: wf_stream_def terminated_def list_ex_iff split: option.splits)

lemma wf_stream_snoc2:
  "wf_stream (ns @ [x, y]) \<longleftrightarrow> wf_stream (ns @ [x]) \<and> \<not> terminal x \<and>
     (y = OnComplete \<longrightarrow> (\<exists>v. lastValue (ns @ [x]) = Some v \<and> object v \<noteq> None))"
proof -
  have "ns @ [x, y] = (ns @ [x]) @ [y]" by simp
  then have "wf_stream (ns @ [x, y]) \<longleftrightarrow> wf_stream (ns @ [x]) \<and> \<not> terminated (ns @ [x]) \<and>
     (y = OnComplete \<longrightarrow> (\<exists>v. lastValue (ns @ [x]) = Some v \<and> object v \<noteq> None))"
    by (simp only: wf_stream_snoc)
  moreover have "wf_stream (ns @ [x]) \<Longrightarrow> \<not> terminated ns" by (simp add: wf_stream_snoc)
  ultimately show ?thesis by auto
qed

lemma wf_stream_Complete_value:
  "wf_stream ns \<Longrightarrow> OnComplete \<in> set ns \<Longrightarrow> \<exists>v. lastValue ns = Some v \<and> object v \<noteq> None"
proof (induction ns rule: rev_induct)
  case Nil
  then show ?case by simp
next
  case (snoc x xs)
  then show ?case
    by (cases x) (auto simp: wf_stream_snoc dest: not_terminated_no_Complete)
qed

lemma wf_stream_Complete_no_Error: "wf_stream ns \<Longrightarrow> OnComplete \<in> set ns \<Longrightarrow> OnError e \<notin> set ns"
proof (induction ns rule: rev_induct)
  case Nil
  then show ?case by simp
next
  case (snoc x xs)
  then show ?case
    by (cases x) (auto simp: wf_stream_snoc dest: not_terminated_no_Complete not_terminated_no_Error)
qed

subsection \<open>The image and mesh streams\<close>

lemma cacheImage_run_append:
  "cacheImage_run st (xs @ ys) =
     (let (st', out) = cacheImage_run st xs; (st'', outs) = cacheImage_run st' ys
      in (st'', out @ outs))"
  by (induction xs arbitrary: st) (simp_all add: split_def Let_def)

lemma cacheMesh_run_append:
  "cacheMesh_run read st (xs @ ys) =
     (let (st', out) = cacheMesh_run read st xs; (st'', outs) = cacheMesh_run read st' ys
      in (st'', out @ outs))"
  by (induction xs arbitrary: st) (simp_all add: split_def Let_def)

lemma combineLatest_run_append:
  "combineLatest_run s (xs @ ys) =
     (let (s', out) = combineLatest_run s xs; (s'', outs) = combineLatest_run s' ys
      in (s'', out @ outs))"
  by (induction xs arbitrary: s) (simp_all add: split_def Let_def)

lemma cacheImage_stream:
  "cacheImage_run \<lparr>image_stopped = False, image_loadEvent = None\<rparr> evs = (st, ns)
   \<Longrightarrow> wf_stream ns \<and> (image_stopped st \<longleftrightarrow> terminated ns)"
proof (induction evs arbitrary: st ns rule: rev_induct)
  case Nil
  then show ?case by auto
next
  case (snoc e es)
  obtain st1 ns1 where r: "cacheImage_run \<lparr>image_stopped = False, image_loadEvent = None\<rparr> es = (st1, ns1)"
    by (cases "cacheImage_run \<lparr>image_stopped = False, image_loadEvent = None\<rparr> es")
  from snoc.IH[OF r] have ih: "wf_stream ns1" "image_stopped st1 \<longleftrightarrow> terminated ns1" by simp_all
  from snoc.prems r have step: "(st, ns) = (let (st'', outs) = cacheImage_on e st1 in (st'', ns1 @ outs))"
    by (simp add: cacheImage_run_append split_def Let_def)
  show ?case
  proof (cases "image_stopped st1")
    case True
    with step ih show ?thesis
      by (cases e) (auto simp: image_calls_def split: option.splits)
  next
    case False
    with step ih show ?thesis
      by (cases e) (auto simp: image_calls_def wf_stream_snoc wf_stream_snoc2 split: option.splits)
  qed
qed

lemma cacheMesh_stopped: "cacheMesh_run read True evs = (True, [])"
proof (induction evs)
  case Nil
  then show ?case by simp
next
  case (Cons e es)
  then show ?case by (cases e) (auto split: option.splits)
qed

lemma cacheMesh_stream:
  "cacheMesh_run read False evs = (st, ns)
   \<Longrightarrow> wf_stream ns \<and> (st \<longleftrightarrow> terminated ns) \<and> (\<forall>e. OnError e \<notin> set ns)"
proof (induction evs arbitrary: st ns rule: rev_induct)
  case Nil
  then show ?case by auto
next
  case (snoc e es)
  obtain st1 ns1 where r: "cacheMesh_run read False es = (st1, ns1)"
    by (cases "cacheMesh_run read False es")
  from snoc.IH[OF r] have ih: "wf_stream ns1" "st1 \<longleftrightarrow> terminated ns1" "\<forall>e. OnError e \<notin> set ns1"
    by simp_all
  from snoc.prems r have step: "(st, ns) = (let (st'', outs) = cacheMesh_on read e st1 in (st'', ns1 @ outs))"
    by (simp add: cacheMesh_run_append split_def Let_def)
  show ?case
  proof (cases st1)
    case True
    with step ih show ?thesis
      by (cases e) (auto split: option.splits if_splits)
  next
    case False
    with step ih show ?thesis
      by (cases e) (auto simp: wf_stream_snoc wf_stream_snoc2 split: option.splits if_splits)
  qed
qed


subsection \<open>The trace of an invocation\<close>

lemma fromImage_append [simp]: "fromImage (xs @ ys) = fromImage xs @ fromImage ys"
  by (induction xs rule: fromImage.induct) simp_all

lemma fromMesh_append [simp]: "fromMesh (xs @ ys) = fromMesh xs @ fromMesh ys"
  by (induction xs rule: fromMesh.induct) simp_all

lemma fromImage_map [simp]:
  "fromImage (map FromImage ns) = ns" "fromImage (map FromMesh ms) = []"
  by (induction ns, simp_all) (induction ms, simp_all)

lemma fromMesh_map [simp]:
  "fromMesh (map FromMesh ms) = ms" "fromMesh (map FromImage ns) = []"
  by (induction ms, simp_all) (induction ns, simp_all)

lemma fromImage_events_trace:
  "fromImage (events_trace read ci cm evs) = snd (cacheImage_run ci (imageEvents evs))"
proof (induction evs arbitrary: ci cm)
  case Nil
  then show ?case by simp
next
  case (Cons ev evs)
  then show ?case by (cases ev) (simp_all add: split_def Let_def)
qed

lemma fromMesh_events_trace:
  "fromMesh (events_trace read ci cm evs) = snd (cacheMesh_run read cm (meshEvents evs))"
proof (induction evs arbitrary: ci cm)
  case Nil
  then show ?case by simp
next
  case (Cons ev evs)
  then show ?case by (cases ev) (simp_all add: split_def Let_def)
qed

lemma fromImage_cacheAssets_trace:
  "fromImage (cacheAssets_trace read n evs)
     = snd (cacheImage_run \<lparr>image_stopped = False, image_loadEvent = None\<rparr> (imageEvents evs))"
  by (simp add: cacheAssets_trace_def cacheImage_subscribe_def split_def Let_def
      fromImage_events_trace)

lemma fromMesh_cacheAssets_trace:
  "fromMesh (cacheAssets_trace read n evs)
     = (if merged n then snd (cacheMesh_run read False (meshEvents evs))
        else [OnNext \<lparr>loaded_of = \<lparr>loaded = 0, total = 0\<rparr>,
                      object = Some \<lparr>faces = [], vertices = []\<rparr>\<rparr>, OnComplete])"
  by (simp add: cacheAssets_trace_def cacheMesh_subscribe_def split_def Let_def
      fromMesh_events_trace cacheMesh_stopped)

lemma wf_stream_immediate_mesh:
  "wf_stream [OnNext \<lparr>loaded_of = \<lparr>loaded = 0, total = 0\<rparr>,
               object = Some \<lparr>faces = [], vertices = []\<rparr>\<rparr>, OnComplete]"
  by (simp add: wf_stream_def lastValue_def)

lemma wf_stream_fromImage: "wf_stream (fromImage (cacheAssets_trace read n evs))"
  using cacheImage_stream [of "imageEvents evs"]
  by (cases "cacheImage_run \<lparr>image_stopped = False, image_loadEvent = None\<rparr> (imageEvents evs)")
    (simp add: fromImage_cacheAssets_trace)

lemma wf_stream_fromMesh:
  "wf_stream (fromMesh (cacheAssets_trace read n evs))
   \<and> (\<forall>e. OnError e \<notin> set (fromMesh (cacheAssets_trace read n evs)))"
  using cacheMesh_stream [of read "meshEvents evs"] wf_stream_immediate_mesh
  by (cases "cacheMesh_run read False (meshEvents evs)")
    (simp add: fromMesh_cacheAssets_trace)

subsection \<open>The invariant of combineLatest\<close>

lemma project_Some:
  "project n (Some i) (Some m) =
     n\<lparr>mesh := object m, image_node := object i,
       loadStatus := \<lparr>loaded = loaded (loaded_of m) + loaded (loaded_of i),
                      total = total (loaded_of m) + total (loaded_of i)\<rparr>\<rparr>"
  by (simp add: project_def Let_def)

lemma agrees_project: "agrees (project n (Some i) (Some m)) i m"
  by (simp add: project_Some agrees_def)

lemma cl_inv_initial: "cl_inv [] [] (combineLatest_initial n) []"
  by (simp add: cl_inv_def combineLatest_initial_def)

lemma terminated_iff: "terminated ns \<longleftrightarrow> OnComplete \<in> set ns \<or> (\<exists>e. OnError e \<in> set ns)"
proof (induction ns)
  case Nil
  then show ?case by simp
next
  case (Cons x xs)
  then show ?case by (cases x) auto
qed

lemma image_next_step:
  assumes inv: "cl_inv I M s outs" and wI: "wf_stream (I @ [OnNext v])" and wM: "wf_stream M"
    and nM: "\<forall>e. OnError e \<notin> set M"
    and st: "combineLatest_on (FromImage (OnNext v)) s = (s', out)"
  shows "cl_inv (I @ [OnNext v]) M s' (outs @ out)"
proof -
  from wI have nt: "\<not> terminated I" by (simp add: wf_stream_snoc)
  then have nI: "OnComplete \<notin> set I" "\<forall>e. OnError e \<notin> set I"
    by (simp_all add: terminated_iff)
  with inv have ns: "\<not> stopped s" "\<not> terminated outs" "meshValue s = lastValue M"
    "OnComplete \<notin> set outs" "\<forall>e. OnError e \<notin> set outs"
    "active s = 2 - (if OnComplete \<in> set M then 1 else 0)"
    by (auto simp: cl_inv_def terminated_iff)
  show ?thesis
  proof (cases "lastValue M")
    case None
    with st ns have "s' = s\<lparr>imageValue := Some v\<rparr>" "out = []"
      by (simp_all add: emitProjected_def)
    moreover from None have "\<not> (\<exists>v. OnNext v \<in> set M)"
      using lastValue_Some_iff [of M] by simp
    ultimately show ?thesis using inv nI ns None
      by (auto simp: cl_inv_def)
  next
    case (Some m)
    with st ns have s': "s' = s\<lparr>imageValue := Some v, node := project (node s) (Some v) (Some m)\<rparr>"
      "out = [OnNext (project (node s) (Some v) (Some m))]"
      by (simp_all add: emitProjected_def Let_def)
    moreover from Some have "\<exists>v. OnNext v \<in> set M"
      using lastValue_Some_iff [of M] by auto
    ultimately show ?thesis using inv nI ns Some agrees_project [of "node s" v m]
      by (auto simp: cl_inv_def)
  qed
qed


lemma mesh_next_step:
  assumes inv: "cl_inv I M s outs" and wM: "wf_stream (M @ [OnNext v])"
    and st: "combineLatest_on (FromMesh (OnNext v)) s = (s', out)"
  shows "cl_inv I (M @ [OnNext v]) s' (outs @ out)"
proof -
  from wM have nt: "\<not> terminated M" by (simp add: wf_stream_snoc)
  then have nM: "OnComplete \<notin> set M" "\<forall>e. OnError e \<notin> set M"
    by (simp_all add: terminated_iff)
  show ?thesis
  proof (cases "stopped s")
    case True
    with st have same: "s' = s" "out = []" by simp_all
    from True inv nM have "\<exists>e. OnError e \<in> set I"
      by (auto simp: cl_inv_def terminated_iff)
    with same inv nM show ?thesis by (auto simp: cl_inv_def)
  next
    case False
    with inv have nI: "\<forall>e. OnError e \<notin> set I" by (auto simp: cl_inv_def terminated_iff)
    with inv False have ns: "\<not> terminated outs" "imageValue s = lastValue I"
      "OnComplete \<notin> set outs" "\<forall>e. OnError e \<notin> set outs"
      by (auto simp: cl_inv_def terminated_iff)
    show ?thesis
    proof (cases "lastValue I")
      case None
      with st ns False have "s' = s\<lparr>meshValue := Some v\<rparr>" "out = []"
        by (simp_all add: emitProjected_def)
      moreover from None have "\<not> (\<exists>v. OnNext v \<in> set I)"
        using lastValue_Some_iff [of I] by simp
      ultimately show ?thesis using inv nI nM ns None False
        by (auto simp: cl_inv_def)
    next
      case (Some i)
      with st ns False
      have s': "s' = s\<lparr>meshValue := Some v, node := project (node s) (Some i) (Some v)\<rparr>"
        "out = [OnNext (project (node s) (Some i) (Some v))]"
        by (simp_all add: emitProjected_def Let_def)
      moreover from Some have "\<exists>v. OnNext v \<in> set I"
        using lastValue_Some_iff [of I] by auto
      ultimately show ?thesis using inv nI nM ns Some False agrees_project [of "node s" i v]
        by (auto simp: cl_inv_def)
    qed
  qed
qed

lemma cl_invI:
  assumes "stopped s \<longleftrightarrow> terminated outs"
    and "\<not> terminated (butlast outs)"
    and "OnComplete \<in> set outs \<longleftrightarrow> OnComplete \<in> set I \<and> OnComplete \<in> set M"
    and "\<And>e. OnError e \<in> set outs \<longleftrightarrow> OnError e \<in> set I"
    and "\<And>nd. OnNext nd \<in> set outs \<Longrightarrow> (\<exists>v. OnNext v \<in> set I) \<and> (\<exists>v. OnNext v \<in> set M)"
    and "\<And>nd. lastValue outs = Some nd \<Longrightarrow> nd = node s"
    and "\<forall>e. OnError e \<notin> set I \<Longrightarrow> imageValue s = lastValue I \<and> meshValue s = lastValue M"
    and "\<forall>e. OnError e \<notin> set I \<Longrightarrow>
          active s = 2 - (if OnComplete \<in> set I then 1 else 0)
                       - (if OnComplete \<in> set M then 1 else 0)"
    and "\<And>i m. \<forall>e. OnError e \<notin> set I \<Longrightarrow> lastValue I = Some i \<Longrightarrow> lastValue M = Some m
          \<Longrightarrow> agrees (node s) i m \<and> lastValue outs = Some (node s)"
  shows "cl_inv I M s outs"
  unfolding cl_inv_def using assms by blast

lemma cl_inv_stopped: "cl_inv I M s outs \<Longrightarrow> stopped s \<longleftrightarrow> terminated outs"
  by (simp add: cl_inv_def)

lemma cl_inv_butlast: "cl_inv I M s outs \<Longrightarrow> \<not> terminated (butlast outs)"
  by (simp add: cl_inv_def)

lemma cl_inv_Complete:
  "cl_inv I M s outs \<Longrightarrow> OnComplete \<in> set outs \<longleftrightarrow> OnComplete \<in> set I \<and> OnComplete \<in> set M"
  by (simp add: cl_inv_def)

lemma cl_inv_Error: "cl_inv I M s outs \<Longrightarrow> OnError e \<in> set outs \<longleftrightarrow> OnError e \<in> set I"
  by (simp add: cl_inv_def)

lemma cl_inv_Next:
  "cl_inv I M s outs \<Longrightarrow> OnNext nd \<in> set outs
   \<Longrightarrow> (\<exists>v. OnNext v \<in> set I) \<and> (\<exists>v. OnNext v \<in> set M)"
  unfolding cl_inv_def by blast

lemma cl_inv_last: "cl_inv I M s outs \<Longrightarrow> lastValue outs = Some nd \<Longrightarrow> nd = node s"
  unfolding cl_inv_def by blast

lemma cl_inv_values:
  "cl_inv I M s outs \<Longrightarrow> \<forall>e. OnError e \<notin> set I
   \<Longrightarrow> imageValue s = lastValue I \<and> meshValue s = lastValue M"
  unfolding cl_inv_def by blast

lemma cl_inv_active:
  "cl_inv I M s outs \<Longrightarrow> \<forall>e. OnError e \<notin> set I
   \<Longrightarrow> active s = 2 - (if OnComplete \<in> set I then 1 else 0)
                     - (if OnComplete \<in> set M then 1 else 0)"
  unfolding cl_inv_def by blast

lemma cl_inv_agrees:
  "cl_inv I M s outs \<Longrightarrow> \<forall>e. OnError e \<notin> set I \<Longrightarrow> lastValue I = Some i
   \<Longrightarrow> lastValue M = Some m \<Longrightarrow> agrees (node s) i m \<and> lastValue outs = Some (node s)"
  unfolding cl_inv_def by blast

text \<open>While the image stream has not ended, neither has the combined one.\<close>

lemma cl_inv_running:
  assumes inv: "cl_inv I M s outs" and nt: "\<not> terminated I"
  shows "\<not> stopped s" "\<not> terminated outs" "OnComplete \<notin> set outs" "OnError e \<notin> set outs"
    "OnComplete \<notin> set I" "OnError e \<notin> set I"
proof -
  from nt show nI: "OnComplete \<notin> set I" "OnError e \<notin> set I"
    by (simp_all add: terminated_iff)
  from nt have noE: "\<forall>e. OnError e \<notin> set I" by (simp add: terminated_iff)
  from nI(1) cl_inv_Complete [OF inv] show c: "OnComplete \<notin> set outs" by simp
  from noE cl_inv_Error [OF inv] have e: "\<forall>e. OnError e \<notin> set outs" by simp
  then show "OnError e \<notin> set outs" by simp
  from c e show t: "\<not> terminated outs" by (simp add: terminated_iff)
  with cl_inv_stopped [OF inv] show "\<not> stopped s" by simp
qed

text \<open>Once stopped, the combined stream ignores the mesh stream.\<close>

lemma cl_inv_mesh_dropped:
  assumes inv: "cl_inv I M s outs" and st: "stopped s" and nt: "\<not> terminated M"
    and wI: "wf_stream I" and x: "\<forall>e. x \<noteq> OnError e"
  shows "cl_inv I (M @ [x]) s outs"
proof -
  from nt have nM: "OnComplete \<notin> set M" by (simp add: terminated_iff)
  from st cl_inv_stopped [OF inv] have "terminated outs" by simp
  with nM cl_inv_Complete [OF inv] cl_inv_Error [OF inv] obtain e where e: "OnError e \<in> set I"
    by (auto simp: terminated_iff)
  with wI have cI: "OnComplete \<notin> set I" using wf_stream_Complete_no_Error by blast
  from nM cl_inv_Complete [OF inv] have cO: "OnComplete \<notin> set outs" by simp
  show ?thesis
  proof (rule cl_invI)
    show "stopped s \<longleftrightarrow> terminated outs" by (rule cl_inv_stopped [OF inv])
    show "\<not> terminated (butlast outs)" by (rule cl_inv_butlast [OF inv])
    show "OnComplete \<in> set outs \<longleftrightarrow> OnComplete \<in> set I \<and> OnComplete \<in> set (M @ [x])"
      using cI cO by simp
    show "\<And>e. OnError e \<in> set outs \<longleftrightarrow> OnError e \<in> set I"
      by (rule cl_inv_Error [OF inv])
    show "\<And>nd. OnNext nd \<in> set outs
            \<Longrightarrow> (\<exists>v. OnNext v \<in> set I) \<and> (\<exists>v. OnNext v \<in> set (M @ [x]))"
      using cl_inv_Next [OF inv] by fastforce
    show "\<And>nd. lastValue outs = Some nd \<Longrightarrow> nd = node s"
      by (rule cl_inv_last [OF inv])
    show "\<forall>e. OnError e \<notin> set I
           \<Longrightarrow> imageValue s = lastValue I \<and> meshValue s = lastValue (M @ [x])"
      using e by blast
    show "\<forall>e. OnError e \<notin> set I \<Longrightarrow>
          active s = 2 - (if OnComplete \<in> set I then 1 else 0)
                       - (if OnComplete \<in> set (M @ [x]) then 1 else 0)"
      using e by blast
    show "\<And>i m. \<forall>e. OnError e \<notin> set I \<Longrightarrow> lastValue I = Some i
            \<Longrightarrow> lastValue (M @ [x]) = Some m
            \<Longrightarrow> agrees (node s) i m \<and> lastValue outs = Some (node s)"
      using e by blast
  qed
qed

lemma image_complete_step:
  assumes inv: "cl_inv I M s outs" and wI: "wf_stream (I @ [OnComplete])"
    and st: "combineLatest_on (FromImage OnComplete) s = (s', out)"
  shows "cl_inv (I @ [OnComplete]) M s' (outs @ out)"
proof -
  from wI have nt: "\<not> terminated I" by (simp add: wf_stream_snoc)
  note run = cl_inv_running [OF inv nt]
  from nt have noE: "\<forall>e. OnError e \<notin> set I" by (simp add: terminated_iff)
  from cl_inv_active [OF inv noE] run(5)
  have act: "active s = 2 - (if OnComplete \<in> set M then 1 else 0)" by simp
  note vals = cl_inv_values [OF inv noE]
  have node: "node s' = node s" and vs: "imageValue s' = imageValue s" "meshValue s' = meshValue s"
    using st run(1) by (auto simp: notifyComplete_def Let_def split: if_splits)
  show ?thesis
  proof (cases "OnComplete \<in> set M")
    case True
    with st run(1) act have s': "stopped s'" "active s' = 0" and out: "out = [OnComplete]"
      by (auto simp: notifyComplete_def Let_def)
    show ?thesis unfolding out
    proof (rule cl_invI)
      show "stopped s' \<longleftrightarrow> terminated (outs @ [OnComplete])" using s' by simp
      show "\<not> terminated (butlast (outs @ [OnComplete]))" using run(2) by simp
      show "OnComplete \<in> set (outs @ [OnComplete])
              \<longleftrightarrow> OnComplete \<in> set (I @ [OnComplete]) \<and> OnComplete \<in> set M"
        using True by simp
      show "\<And>e. OnError e \<in> set (outs @ [OnComplete]) \<longleftrightarrow> OnError e \<in> set (I @ [OnComplete])"
        using cl_inv_Error [OF inv] by simp
      show "\<And>nd. OnNext nd \<in> set (outs @ [OnComplete])
              \<Longrightarrow> (\<exists>v. OnNext v \<in> set (I @ [OnComplete])) \<and> (\<exists>v. OnNext v \<in> set M)"
        using cl_inv_Next [OF inv] by fastforce
      show "\<And>nd. lastValue (outs @ [OnComplete]) = Some nd \<Longrightarrow> nd = node s'"
        using cl_inv_last [OF inv] node by simp
      show "\<forall>e. OnError e \<notin> set (I @ [OnComplete])
             \<Longrightarrow> imageValue s' = lastValue (I @ [OnComplete]) \<and> meshValue s' = lastValue M"
        using vals vs by simp
      show "\<forall>e. OnError e \<notin> set (I @ [OnComplete]) \<Longrightarrow>
            active s' = 2 - (if OnComplete \<in> set (I @ [OnComplete]) then 1 else 0)
                         - (if OnComplete \<in> set M then 1 else 0)"
        using s' True by simp
      show "\<And>i m. \<forall>e. OnError e \<notin> set (I @ [OnComplete])
              \<Longrightarrow> lastValue (I @ [OnComplete]) = Some i \<Longrightarrow> lastValue M = Some m
              \<Longrightarrow> agrees (node s') i m \<and> lastValue (outs @ [OnComplete]) = Some (node s')"
        using cl_inv_agrees [OF inv noE] node by simp
    qed
  next
    case False
    with st run(1) act have s': "\<not> stopped s'" "active s' = 1" and out: "out = []"
      by (auto simp: notifyComplete_def Let_def)
    show ?thesis unfolding out append_Nil2
    proof (rule cl_invI)
      show "stopped s' \<longleftrightarrow> terminated outs" using s' run(2) by simp
      show "\<not> terminated (butlast outs)" by (rule cl_inv_butlast [OF inv])
      show "OnComplete \<in> set outs \<longleftrightarrow> OnComplete \<in> set (I @ [OnComplete]) \<and> OnComplete \<in> set M"
        using False run(3) by simp
      show "\<And>e. OnError e \<in> set outs \<longleftrightarrow> OnError e \<in> set (I @ [OnComplete])"
        using cl_inv_Error [OF inv] by simp
      show "\<And>nd. OnNext nd \<in> set outs
              \<Longrightarrow> (\<exists>v. OnNext v \<in> set (I @ [OnComplete])) \<and> (\<exists>v. OnNext v \<in> set M)"
        using cl_inv_Next [OF inv] by fastforce
      show "\<And>nd. lastValue outs = Some nd \<Longrightarrow> nd = node s'"
        using cl_inv_last [OF inv] node by simp
      show "\<forall>e. OnError e \<notin> set (I @ [OnComplete])
             \<Longrightarrow> imageValue s' = lastValue (I @ [OnComplete]) \<and> meshValue s' = lastValue M"
        using vals vs by simp
      show "\<forall>e. OnError e \<notin> set (I @ [OnComplete]) \<Longrightarrow>
            active s' = 2 - (if OnComplete \<in> set (I @ [OnComplete]) then 1 else 0)
                         - (if OnComplete \<in> set M then 1 else 0)"
        using s' False by simp
      show "\<And>i m. \<forall>e. OnError e \<notin> set (I @ [OnComplete])
              \<Longrightarrow> lastValue (I @ [OnComplete]) = Some i \<Longrightarrow> lastValue M = Some m
              \<Longrightarrow> agrees (node s') i m \<and> lastValue outs = Some (node s')"
        using cl_inv_agrees [OF inv noE] node by simp
    qed
  qed
qed

lemma mesh_complete_step:
  assumes inv: "cl_inv I M s outs" and wM: "wf_stream (M @ [OnComplete])" and wI: "wf_stream I"
    and st: "combineLatest_on (FromMesh OnComplete) s = (s', out)"
  shows "cl_inv I (M @ [OnComplete]) s' (outs @ out)"
proof (cases "stopped s")
  case True
  from wM have nt: "\<not> terminated M" by (simp add: wf_stream_snoc)
  from True st have "s' = s" "out = []" by simp_all
  with cl_inv_mesh_dropped [OF inv True nt wI, of OnComplete] show ?thesis by simp
next
  case False
  from wM have nt: "\<not> terminated M" by (simp add: wf_stream_snoc)
  then have nM: "OnComplete \<notin> set M" by (simp add: terminated_iff)
  from False cl_inv_stopped [OF inv] have tO: "\<not> terminated outs" by simp
  then have cO: "OnComplete \<notin> set outs" and eO: "\<forall>e. OnError e \<notin> set outs"
    by (simp_all add: terminated_iff)
  from eO cl_inv_Error [OF inv] have noE: "\<forall>e. OnError e \<notin> set I" by simp
  from cl_inv_active [OF inv noE] nM
  have act: "active s = 2 - (if OnComplete \<in> set I then 1 else 0)" by simp
  note vals = cl_inv_values [OF inv noE]
  have node: "node s' = node s" and vs: "imageValue s' = imageValue s" "meshValue s' = meshValue s"
    using st False by (auto simp: notifyComplete_def Let_def split: if_splits)
  show ?thesis
  proof (cases "OnComplete \<in> set I")
    case True
    with st False act have s': "stopped s'" "active s' = 0" and out: "out = [OnComplete]"
      by (auto simp: notifyComplete_def Let_def)
    show ?thesis unfolding out
    proof (rule cl_invI)
      show "stopped s' \<longleftrightarrow> terminated (outs @ [OnComplete])" using s' by simp
      show "\<not> terminated (butlast (outs @ [OnComplete]))" using tO by simp
      show "OnComplete \<in> set (outs @ [OnComplete])
              \<longleftrightarrow> OnComplete \<in> set I \<and> OnComplete \<in> set (M @ [OnComplete])"
        using True by simp
      show "\<And>e. OnError e \<in> set (outs @ [OnComplete]) \<longleftrightarrow> OnError e \<in> set I"
        using cl_inv_Error [OF inv] by simp
      show "\<And>nd. OnNext nd \<in> set (outs @ [OnComplete])
              \<Longrightarrow> (\<exists>v. OnNext v \<in> set I) \<and> (\<exists>v. OnNext v \<in> set (M @ [OnComplete]))"
        using cl_inv_Next [OF inv] by fastforce
      show "\<And>nd. lastValue (outs @ [OnComplete]) = Some nd \<Longrightarrow> nd = node s'"
        using cl_inv_last [OF inv] node by simp
      show "\<forall>e. OnError e \<notin> set I
             \<Longrightarrow> imageValue s' = lastValue I \<and> meshValue s' = lastValue (M @ [OnComplete])"
        using vals vs by simp
      show "\<forall>e. OnError e \<notin> set I \<Longrightarrow>
            active s' = 2 - (if OnComplete \<in> set I then 1 else 0)
                         - (if OnComplete \<in> set (M @ [OnComplete]) then 1 else 0)"
        using s' True by simp
      show "\<And>i m. \<forall>e. OnError e \<notin> set I
              \<Longrightarrow> lastValue I = Some i \<Longrightarrow> lastValue (M @ [OnComplete]) = Some m
              \<Longrightarrow> agrees (node s') i m \<and> lastValue (outs @ [OnComplete]) = Some (node s')"
        using cl_inv_agrees [OF inv noE] node by simp
    qed
  next
    case notI: False
    with st False act have s': "\<not> stopped s'" "active s' = 1" and out: "out = []"
      by (auto simp: notifyComplete_def Let_def)
    show ?thesis unfolding out append_Nil2
    proof (rule cl_invI)
      show "stopped s' \<longleftrightarrow> terminated outs" using s' tO by simp
      show "\<not> terminated (butlast outs)" by (rule cl_inv_butlast [OF inv])
      show "OnComplete \<in> set outs \<longleftrightarrow> OnComplete \<in> set I \<and> OnComplete \<in> set (M @ [OnComplete])"
        using notI cO by simp
      show "\<And>e. OnError e \<in> set outs \<longleftrightarrow> OnError e \<in> set I"
        using cl_inv_Error [OF inv] by simp
      show "\<And>nd. OnNext nd \<in> set outs
              \<Longrightarrow> (\<exists>v. OnNext v \<in> set I) \<and> (\<exists>v. OnNext v \<in> set (M @ [OnComplete]))"
        using cl_inv_Next [OF inv] by fastforce
      show "\<And>nd. lastValue outs = Some nd \<Longrightarrow> nd = node s'"
        using cl_inv_last [OF inv] node by simp
      show "\<forall>e. OnError e \<notin> set I
             \<Longrightarrow> imageValue s' = lastValue I \<and> meshValue s' = lastValue (M @ [OnComplete])"
        using vals vs by simp
      show "\<forall>e. OnError e \<notin> set I \<Longrightarrow>
            active s' = 2 - (if OnComplete \<in> set I then 1 else 0)
                         - (if OnComplete \<in> set (M @ [OnComplete]) then 1 else 0)"
        using s' notI by simp
      show "\<And>i m. \<forall>e. OnError e \<notin> set I
              \<Longrightarrow> lastValue I = Some i \<Longrightarrow> lastValue (M @ [OnComplete]) = Some m
              \<Longrightarrow> agrees (node s') i m \<and> lastValue outs = Some (node s')"
        using cl_inv_agrees [OF inv noE] node by simp
    qed
  qed
qed

lemma image_error_step:
  assumes inv: "cl_inv I M s outs" and wI: "wf_stream (I @ [OnError e])"
    and st: "combineLatest_on (FromImage (OnError e)) s = (s', out)"
  shows "cl_inv (I @ [OnError e]) M s' (outs @ out)"
proof -
  from wI have nt: "\<not> terminated I" by (simp add: wf_stream_snoc)
  note run = cl_inv_running [OF inv nt]
  from st run(1) have s': "stopped s'" "node s' = node s" and out: "out = [OnError e]"
    by auto
  have err: "\<not> (\<forall>e'. OnError e' \<notin> set (I @ [OnError e]))" by auto
  show ?thesis unfolding out
  proof (rule cl_invI)
    show "stopped s' \<longleftrightarrow> terminated (outs @ [OnError e])" using s' by simp
    show "\<not> terminated (butlast (outs @ [OnError e]))" using run(2) by simp
    show "OnComplete \<in> set (outs @ [OnError e])
            \<longleftrightarrow> OnComplete \<in> set (I @ [OnError e]) \<and> OnComplete \<in> set M"
      using run(3,5) by simp
    show "\<And>e'. OnError e' \<in> set (outs @ [OnError e]) \<longleftrightarrow> OnError e' \<in> set (I @ [OnError e])"
      using cl_inv_Error [OF inv] by simp
    show "\<And>nd. OnNext nd \<in> set (outs @ [OnError e])
            \<Longrightarrow> (\<exists>v. OnNext v \<in> set (I @ [OnError e])) \<and> (\<exists>v. OnNext v \<in> set M)"
      using cl_inv_Next [OF inv] by fastforce
    show "\<And>nd. lastValue (outs @ [OnError e]) = Some nd \<Longrightarrow> nd = node s'"
      using cl_inv_last [OF inv] s' by simp
    show "\<forall>e'. OnError e' \<notin> set (I @ [OnError e])
           \<Longrightarrow> imageValue s' = lastValue (I @ [OnError e]) \<and> meshValue s' = lastValue M"
      using err by blast
    show "\<forall>e'. OnError e' \<notin> set (I @ [OnError e]) \<Longrightarrow>
          active s' = 2 - (if OnComplete \<in> set (I @ [OnError e]) then 1 else 0)
                       - (if OnComplete \<in> set M then 1 else 0)"
      using err by blast
    show "\<And>i m. \<forall>e'. OnError e' \<notin> set (I @ [OnError e])
            \<Longrightarrow> lastValue (I @ [OnError e]) = Some i \<Longrightarrow> lastValue M = Some m
            \<Longrightarrow> agrees (node s') i m \<and> lastValue (outs @ [OnError e]) = Some (node s')"
      using err by blast
  qed
qed

lemma combineLatest_invariant:
  "wf_stream (fromImage tr) \<Longrightarrow> wf_stream (fromMesh tr) \<Longrightarrow> \<forall>e. OnError e \<notin> set (fromMesh tr)
   \<Longrightarrow> combineLatest_run (combineLatest_initial n) tr = (s, outs)
   \<Longrightarrow> cl_inv (fromImage tr) (fromMesh tr) s outs"
proof (induction tr arbitrary: s outs rule: rev_induct)
  case Nil
  then show ?case using cl_inv_initial [of n] by auto
next
  case (snoc x tr)
  obtain s1 outs1 where r: "combineLatest_run (combineLatest_initial n) tr = (s1, outs1)"
    by (cases "combineLatest_run (combineLatest_initial n) tr")
  obtain s2 out where st2: "combineLatest_on x s1 = (s2, out)"
    by (cases "combineLatest_on x s1")
  have "combineLatest_run (combineLatest_initial n) (tr @ [x]) = (s2, outs1 @ out)"
    by (simp only: combineLatest_run_append r st2 combineLatest_run.simps Let_def split
        append_Nil2)
  with snoc.prems(4) have st: "combineLatest_on x s1 = (s, out)" and o: "outs = outs1 @ out"
    using st2 by simp_all
  have wI: "wf_stream (fromImage tr)" and wM: "wf_stream (fromMesh tr)"
    using snoc.prems(1,2) by (cases x; simp add: wf_stream_snoc)+
  have nM: "\<forall>e. OnError e \<notin> set (fromMesh tr)"
    using snoc.prems(3) by (cases x) auto
  from snoc.IH [OF wI wM nM r] have inv: "cl_inv (fromImage tr) (fromMesh tr) s1 outs1" .
  show ?case
  proof (cases x)
    case (FromImage y)
    show ?thesis
    proof (cases y)
      case (OnNext v)
      with FromImage snoc.prems(1) st have "wf_stream (fromImage tr @ [OnNext v])"
        "combineLatest_on (FromImage (OnNext v)) s1 = (s, out)" by simp_all
      from image_next_step [OF inv this(1) wM nM this(2)] show ?thesis
        using FromImage OnNext o by simp
    next
      case (OnError e)
      with FromImage snoc.prems(1) st have "wf_stream (fromImage tr @ [OnError e])"
        "combineLatest_on (FromImage (OnError e)) s1 = (s, out)" by simp_all
      from image_error_step [OF inv this] show ?thesis
        using FromImage OnError o by simp
    next
      case OnComplete
      with FromImage snoc.prems(1) st have "wf_stream (fromImage tr @ [OnComplete])"
        "combineLatest_on (FromImage OnComplete) s1 = (s, out)" by simp_all
      from image_complete_step [OF inv this] show ?thesis
        using FromImage OnComplete o by simp
    qed
  next
    case (FromMesh y)
    show ?thesis
    proof (cases y)
      case (OnNext v)
      with FromMesh snoc.prems(2) st have "wf_stream (fromMesh tr @ [OnNext v])"
        "combineLatest_on (FromMesh (OnNext v)) s1 = (s, out)" by simp_all
      from mesh_next_step [OF inv this] show ?thesis
        using FromMesh OnNext o by simp
    next
      case (OnError e)
      with FromMesh snoc.prems(3) have False by auto
      then show ?thesis ..
    next
      case OnComplete
      with FromMesh snoc.prems(2) st have "wf_stream (fromMesh tr @ [OnComplete])"
        "combineLatest_on (FromMesh OnComplete) s1 = (s, out)" by simp_all
      from mesh_complete_step [OF inv this(1) wI this(2)] show ?thesis
        using FromMesh OnComplete o by simp
    qed
  qed
qed

lemma cacheAssets_invariant:
  "cacheAssets read n evs = (s, outs) \<Longrightarrow>
   cl_inv (fromImage (cacheAssets_trace read n evs)) (fromMesh (cacheAssets_trace read n evs)) s outs"
  using combineLatest_invariant [of "cacheAssets_trace read n evs" n s outs]
    wf_stream_fromImage [of read n evs] wf_stream_fromMesh [of read n evs]
  by (simp add: cacheAssets_def)

lemma fromImage_notifications:
  "fromImage (cacheAssets_trace read n evs) = cacheImage_notifications n (imageEvents evs)"
  by (simp add: fromImage_cacheAssets_trace cacheImage_notifications_def cacheImage_subscribe_def)

lemma fromMesh_notifications:
  "fromMesh (cacheAssets_trace read n evs) = cacheMesh_notifications read n (meshEvents evs)"
  by (simp add: fromMesh_cacheAssets_trace cacheMesh_notifications_def cacheMesh_subscribe_def
      cacheMesh_stopped)

lemma cacheAssets_inv:
  "cacheAssets read n evs = (s, outs) \<Longrightarrow>
   cl_inv (cacheImage_notifications n (imageEvents evs))
     (cacheMesh_notifications read n (meshEvents evs)) s outs"
  using cacheAssets_invariant [of read n evs s outs]
  by (simp add: fromImage_notifications fromMesh_notifications)

lemma wf_stream_image_notifications: "wf_stream (cacheImage_notifications n evs)"
  using cacheImage_stream [of evs]
  by (cases "cacheImage_run \<lparr>image_stopped = False, image_loadEvent = None\<rparr> evs")
    (simp add: cacheImage_notifications_def cacheImage_subscribe_def)

lemma wf_stream_mesh_notifications:
  "wf_stream (cacheMesh_notifications read n evs)
   \<and> (\<forall>e. OnError e \<notin> set (cacheMesh_notifications read n evs))"
  using cacheMesh_stream [of read evs] wf_stream_immediate_mesh
  by (cases "cacheMesh_run read False evs")
    (simp add: cacheMesh_notifications_def cacheMesh_subscribe_def cacheMesh_stopped)

subsection \<open>cacheMesh on a node that is not merged\<close>

text \<open>
  C5.  For a node with \<open>merged == false\<close>, subscribing to \<open>cacheMesh()\<close> at once
  yields the empty mesh \<open>{faces: [], vertices: []}\<close> with load status \<open>loaded = 0\<close>,
  \<open>total = 0\<close> and completes, and sends no request; whatever events follow, the stream
  holds nothing else.
\<close>

theorem cacheMesh_not_merged:
  assumes "\<not> merged n"
  shows "cacheMesh_subscribe n =
           (True,
            [OnNext \<lparr>loaded_of = \<lparr>loaded = 0, total = 0\<rparr>,
                     object = Some \<lparr>faces = [], vertices = []\<rparr>\<rparr>,
             OnComplete],
            None)
         \<and> cacheMesh_notifications read n evs =
            [OnNext \<lparr>loaded_of = \<lparr>loaded = 0, total = 0\<rparr>,
                     object = Some \<lparr>faces = [], vertices = []\<rparr>\<rparr>,
             OnComplete]"
  using assms
  by (simp add: cacheMesh_subscribe_def cacheMesh_notifications_def cacheMesh_stopped)

theorem cacheMesh_not_merged_witness:
  "\<not> merged plainNode
   \<and> cacheMesh_subscribe plainNode =
           (True,
            [OnNext \<lparr>loaded_of = \<lparr>loaded = 0, total = 0\<rparr>,
                     object = Some \<lparr>faces = [], vertices = []\<rparr>\<rparr>,
             OnComplete],
            None)
   \<and> cacheMesh_notifications readNothing plainNode [MeshProgress 1 2, MeshLoad 2 2 200 []] =
            [OnNext \<lparr>loaded_of = \<lparr>loaded = 0, total = 0\<rparr>,
                     object = Some \<lparr>faces = [], vertices = []\<rparr>\<rparr>,
             OnComplete]"
proof -
  have h: "\<not> merged plainNode" by (simp add: merged_def plainNode_def sampleNode_def)
  from cacheMesh_not_merged [OF h, of readNothing "[MeshProgress 1 2, MeshLoad 2 2 200 []]"] h
  show ?thesis by simp
qed

subsection \<open>The load status of a completed invocation\<close>

text \<open>
  C4.  When an invocation of \<open>cacheAssets()\<close> completes, the node's
  \<open>loadStatus.loaded\<close> is the sum of the last \<open>loaded\<close> counts reported by the image
  fetch and by the mesh fetch, and \<open>loadStatus.total\<close> is the sum of their last totals;
  the node emitted last is the node in that state.
\<close>

theorem cacheAssets_loadStatus_sum:
  assumes "cacheAssets read n evs = (s, outs)" and "OnComplete \<in> set outs"
  shows "\<exists>i m. lastValue (cacheImage_notifications n (imageEvents evs)) = Some i
           \<and> lastValue (cacheMesh_notifications read n (meshEvents evs)) = Some m
           \<and> loaded (loadStatus (node s)) = loaded (loaded_of i) + loaded (loaded_of m)
           \<and> total (loadStatus (node s)) = total (loaded_of i) + total (loaded_of m)
           \<and> lastValue outs = Some (node s)"
proof -
  let ?I = "cacheImage_notifications n (imageEvents evs)"
  let ?M = "cacheMesh_notifications read n (meshEvents evs)"
  note inv = cacheAssets_inv [OF assms(1)]
  from assms(2) cl_inv_Complete [OF inv] have c: "OnComplete \<in> set ?I" "OnComplete \<in> set ?M"
    by simp_all
  from wf_stream_Complete_value [OF wf_stream_image_notifications c(1)] obtain i where i: "lastValue ?I = Some i"
    by blast
  from wf_stream_mesh_notifications [of read n "meshEvents evs"] have "wf_stream ?M" by simp
  from wf_stream_Complete_value [OF this c(2)] obtain m where m: "lastValue ?M = Some m" by blast
  from wf_stream_Complete_no_Error [OF wf_stream_image_notifications c(1)]
  have noE: "\<forall>e. OnError e \<notin> set ?I" by simp
  from cl_inv_agrees [OF inv noE i m] i m show ?thesis
    by (auto simp: agrees_def)
qed

subsection \<open>Sample invocations\<close>

lemmas run_defs =
  cacheAssets_def cacheAssets_trace_def cacheImage_subscribe_def cacheMesh_subscribe_def
  merged_def sampleNode_def mergedNode_def plainNode_def image_calls_def emitProjected_def
  notifyComplete_def project_def combineLatest_initial_def Let_def readNothing_def fullRun_def decodeErrorRun_def
  readTriangle_def decodedRun_def
  cacheImage_notifications_def cacheMesh_notifications_def lastValue_def

lemma fullRun_outputs:
  "snd (cacheAssets readNothing mergedNode fullRun) =
     [OnNext (mergedNode\<lparr>mesh := Some \<lparr>faces = [], vertices = []\<rparr>, image_node := None,
               loadStatus := \<lparr>loaded = 17, total = 107\<rparr>\<rparr>),
      OnNext (mergedNode\<lparr>mesh := Some \<lparr>faces = [], vertices = []\<rparr>,
               image_node := Some (HTMLImageElement [1, 2]),
               loadStatus := \<lparr>loaded = 107, total = 107\<rparr>\<rparr>),
      OnComplete]"
  by (simp add: run_defs)

lemma fullRun_image:
  "cacheImage_notifications mergedNode (imageEvents fullRun) =
     [OnNext \<lparr>loaded_of = \<lparr>loaded = 10, total = 100\<rparr>, object = None\<rparr>,
      OnNext \<lparr>loaded_of = \<lparr>loaded = 100, total = 100\<rparr>, object = Some (HTMLImageElement [1, 2])\<rparr>,
      OnComplete]"
  by (simp add: run_defs)

lemma fullRun_mesh:
  "cacheMesh_notifications readNothing mergedNode (meshEvents fullRun) =
     [OnNext \<lparr>loaded_of = \<lparr>loaded = 7, total = 7\<rparr>,
              object = Some \<lparr>faces = [], vertices = []\<rparr>\<rparr>,
      OnComplete]"
  by (simp add: run_defs)

theorem cacheAssets_loadStatus_sum_witness:
  "OnComplete \<in> set (snd (cacheAssets readNothing mergedNode fullRun))
   \<and> lastValue (cacheImage_notifications mergedNode (imageEvents fullRun))
       = Some \<lparr>loaded_of = \<lparr>loaded = 100, total = 100\<rparr>,
               object = Some (HTMLImageElement [1, 2])\<rparr>
   \<and> lastValue (cacheMesh_notifications readNothing mergedNode (meshEvents fullRun))
       = Some \<lparr>loaded_of = \<lparr>loaded = 7, total = 7\<rparr>,
               object = Some \<lparr>faces = [], vertices = []\<rparr>\<rparr>
   \<and> loaded (loadStatus (node (fst (cacheAssets readNothing mergedNode fullRun)))) = 100 + 7
   \<and> total (loadStatus (node (fst (cacheAssets readNothing mergedNode fullRun)))) = 100 + 7"
proof -
  have r: "cacheAssets readNothing mergedNode fullRun
             = (fst (cacheAssets readNothing mergedNode fullRun),
                snd (cacheAssets readNothing mergedNode fullRun))" by simp
  have c: "OnComplete \<in> set (snd (cacheAssets readNothing mergedNode fullRun))"
    by (simp add: fullRun_outputs)
  have i: "lastValue (cacheImage_notifications mergedNode (imageEvents fullRun))
       = Some \<lparr>loaded_of = \<lparr>loaded = 100, total = 100\<rparr>,
               object = Some (HTMLImageElement [1, 2])\<rparr>"
    by (simp add: fullRun_image lastValue_def)
  have m: "lastValue (cacheMesh_notifications readNothing mergedNode (meshEvents fullRun))
       = Some \<lparr>loaded_of = \<lparr>loaded = 7, total = 7\<rparr>,
               object = Some \<lparr>faces = [], vertices = []\<rparr>\<rparr>"
    by (simp add: fullRun_mesh lastValue_def)
  from cacheAssets_loadStatus_sum [OF r c] i m
  have "loaded (loadStatus (node (fst (cacheAssets readNothing mergedNode fullRun)))) = 100 + 7
      \<and> total (loadStatus (node (fst (cacheAssets readNothing mergedNode fullRun)))) = 100 + 7"
    by auto
  with c i m show ?thesis by simp
qed

subsection \<open>What the combined operation emits, and when\<close>

text \<open>
  The node is emitted while a fetch is still in progress: on a node that is not merged,
  the first progress event of the image request makes \<open>cacheAssets()\<close> emit the node,
  its image still null, although the image fetch has reported progress only.
\<close>

theorem progress_emission_counterexample:
  "snd (cacheAssets readNothing plainNode [ImageEvent (ImageProgress 10 100)]) =
     [OnNext (plainNode\<lparr>mesh := Some \<lparr>faces = [], vertices = []\<rparr>, image_node := None,
               loadStatus := \<lparr>loaded = 10, total = 100\<rparr>\<rparr>)]
   \<and> cacheImage_notifications plainNode [ImageProgress 10 100] =
     [OnNext \<lparr>loaded_of = \<lparr>loaded = 10, total = 100\<rparr>, object = None\<rparr>]"
  by (simp add: run_defs)

text \<open>
  C3 (amended).  \<open>cacheAssets()\<close> emits the node only once both the image fetch and the
  mesh fetch have each reported at least once (an emission can occur on a progress
  report, while a fetch is still in progress).  It signals completion exactly when both fetches
  have completed; the image and mesh fields of the node then hold the decoded image and
  the decoded mesh that the two fetches delivered last, both non-null, and the node is
  the one emitted last.  Every notification but the last is an emission of the node:
  after a failure or the completion nothing more is delivered.
\<close>

theorem cacheAssets_emissions:
  assumes "cacheAssets read n evs = (s, outs)"
  shows "((\<exists>nd. OnNext nd \<in> set outs) \<longrightarrow>
            (\<exists>v. OnNext v \<in> set (cacheImage_notifications n (imageEvents evs)))
          \<and> (\<exists>v. OnNext v \<in> set (cacheMesh_notifications read n (meshEvents evs))))
       \<and> (OnComplete \<in> set outs \<longleftrightarrow>
            OnComplete \<in> set (cacheImage_notifications n (imageEvents evs))
          \<and> OnComplete \<in> set (cacheMesh_notifications read n (meshEvents evs)))
       \<and> (OnComplete \<in> set outs \<longrightarrow>
            (\<exists>i m img msh.
                lastValue (cacheImage_notifications n (imageEvents evs)) = Some i
              \<and> lastValue (cacheMesh_notifications read n (meshEvents evs)) = Some m
              \<and> object i = Some img \<and> object m = Some msh
              \<and> image_node (node s) = Some img \<and> mesh (node s) = Some msh)
          \<and> lastValue outs = Some (node s))
       \<and> (\<forall>x\<in>set (butlast outs). \<exists>nd. x = OnNext nd)"
proof -
  let ?I = "cacheImage_notifications n (imageEvents evs)"
  let ?M = "cacheMesh_notifications read n (meshEvents evs)"
  note inv = cacheAssets_inv [OF assms(1)]
  have a: "(\<exists>nd. OnNext nd \<in> set outs) \<longrightarrow> (\<exists>v. OnNext v \<in> set ?I) \<and> (\<exists>v. OnNext v \<in> set ?M)"
    using cl_inv_Next [OF inv] by blast
  have b: "OnComplete \<in> set outs \<longleftrightarrow> OnComplete \<in> set ?I \<and> OnComplete \<in> set ?M"
    by (rule cl_inv_Complete [OF inv])
  have c: "OnComplete \<in> set outs \<longrightarrow>
            (\<exists>i m img msh. lastValue ?I = Some i \<and> lastValue ?M = Some m
              \<and> object i = Some img \<and> object m = Some msh
              \<and> image_node (node s) = Some img \<and> mesh (node s) = Some msh)
          \<and> lastValue outs = Some (node s)"
  proof
    assume "OnComplete \<in> set outs"
    with b have c: "OnComplete \<in> set ?I" "OnComplete \<in> set ?M" by simp_all
    from wf_stream_Complete_value [OF wf_stream_image_notifications c(1)]
    obtain i img where i: "lastValue ?I = Some i" "object i = Some img" by blast
    from wf_stream_mesh_notifications [of read n "meshEvents evs"] have "wf_stream ?M" by simp
    from wf_stream_Complete_value [OF this c(2)]
    obtain m msh where m: "lastValue ?M = Some m" "object m = Some msh" by blast
    from wf_stream_Complete_no_Error [OF wf_stream_image_notifications c(1)]
    have noE: "\<forall>e. OnError e \<notin> set ?I" by simp
    note ag = cl_inv_agrees [OF inv noE i(1) m(1)]
    from ag i(2) m(2) have f: "image_node (node s) = Some img" "mesh (node s) = Some msh"
      by (simp_all add: agrees_def)
    from ag have l: "lastValue outs = Some (node s)" by simp
    from i m f have "\<exists>i m img msh. lastValue ?I = Some i \<and> lastValue ?M = Some m
              \<and> object i = Some img \<and> object m = Some msh
              \<and> image_node (node s) = Some img \<and> mesh (node s) = Some msh"
      by blast
    from this l show "(\<exists>i m img msh. lastValue ?I = Some i \<and> lastValue ?M = Some m
              \<and> object i = Some img \<and> object m = Some msh
              \<and> image_node (node s) = Some img \<and> mesh (node s) = Some msh)
          \<and> lastValue outs = Some (node s)"
      by (rule conjI)
  qed
  have d: "\<forall>x\<in>set (butlast outs). \<exists>nd. x = OnNext nd"
  proof
    fix x assume "x \<in> set (butlast outs)"
    with cl_inv_butlast [OF inv] have "\<not> terminal x"
      by (auto simp: terminated_def list_ex_iff)
    then show "\<exists>nd. x = OnNext nd" by (cases x) simp_all
  qed
  from a b c d show ?thesis by blast
qed

text \<open>
  On \<open>decodedRun\<close> the mesh request answers with status 200 and the reader decodes a
  triangle: at completion the node holds that triangle and the decoded image.
\<close>

theorem cacheAssets_emissions_witness:
  "(\<exists>nd. OnNext nd \<in> set (snd (cacheAssets readTriangle mergedNode decodedRun)))
   \<and> (\<exists>v. OnNext v \<in> set (cacheImage_notifications mergedNode (imageEvents decodedRun)))
   \<and> (\<exists>v. OnNext v \<in> set (cacheMesh_notifications readTriangle mergedNode (meshEvents decodedRun)))
   \<and> OnComplete \<in> set (snd (cacheAssets readTriangle mergedNode decodedRun))
   \<and> OnComplete \<in> set (cacheImage_notifications mergedNode (imageEvents decodedRun))
   \<and> OnComplete \<in> set (cacheMesh_notifications readTriangle mergedNode (meshEvents decodedRun))
   \<and> lastValue (cacheImage_notifications mergedNode (imageEvents decodedRun))
       = Some \<lparr>loaded_of = \<lparr>loaded = 100, total = 100\<rparr>, object = Some (HTMLImageElement [1, 2])\<rparr>
   \<and> lastValue (cacheMesh_notifications readTriangle mergedNode (meshEvents decodedRun))
       = Some \<lparr>loaded_of = \<lparr>loaded = 7, total = 7\<rparr>,
               object = Some \<lparr>faces = [0, 1, 2], vertices = [0, 0, 0, 1, 0, 0, 0, 1, 0]\<rparr>\<rparr>
   \<and> image_node (node (fst (cacheAssets readTriangle mergedNode decodedRun)))
       = Some (HTMLImageElement [1, 2])
   \<and> mesh (node (fst (cacheAssets readTriangle mergedNode decodedRun)))
       = Some \<lparr>faces = [0, 1, 2], vertices = [0, 0, 0, 1, 0, 0, 0, 1, 0]\<rparr>
   \<and> lastValue (snd (cacheAssets readTriangle mergedNode decodedRun))
       = Some (node (fst (cacheAssets readTriangle mergedNode decodedRun)))
   \<and> butlast (snd (cacheAssets readTriangle mergedNode decodedRun)) \<noteq> []"
proof -
  let ?r = "cacheAssets readTriangle mergedNode decodedRun"
  let ?I = "cacheImage_notifications mergedNode (imageEvents decodedRun)"
  let ?M = "cacheMesh_notifications readTriangle mergedNode (meshEvents decodedRun)"
  have r: "?r = (fst ?r, snd ?r)" by simp
  have o: "snd ?r =
     [OnNext (mergedNode\<lparr>mesh := None, image_node := None,
               loadStatus := \<lparr>loaded = 13, total = 107\<rparr>\<rparr>),
      OnNext (mergedNode\<lparr>mesh := Some \<lparr>faces = [0, 1, 2], vertices = [0, 0, 0, 1, 0, 0, 0, 1, 0]\<rparr>,
               image_node := None,
               loadStatus := \<lparr>loaded = 17, total = 107\<rparr>\<rparr>),
      OnNext (mergedNode\<lparr>mesh := Some \<lparr>faces = [0, 1, 2], vertices = [0, 0, 0, 1, 0, 0, 0, 1, 0]\<rparr>,
               image_node := Some (HTMLImageElement [1, 2]),
               loadStatus := \<lparr>loaded = 107, total = 107\<rparr>\<rparr>),
      OnComplete]"
    by (simp add: run_defs)
  have i: "?I =
     [OnNext \<lparr>loaded_of = \<lparr>loaded = 10, total = 100\<rparr>, object = None\<rparr>,
      OnNext \<lparr>loaded_of = \<lparr>loaded = 100, total = 100\<rparr>, object = Some (HTMLImageElement [1, 2])\<rparr>,
      OnComplete]"
    by (simp add: run_defs)
  have m: "?M =
     [OnNext \<lparr>loaded_of = \<lparr>loaded = 3, total = 7\<rparr>, object = None\<rparr>,
      OnNext \<lparr>loaded_of = \<lparr>loaded = 7, total = 7\<rparr>,
              object = Some \<lparr>faces = [0, 1, 2], vertices = [0, 0, 0, 1, 0, 0, 0, 1, 0]\<rparr>\<rparr>,
      OnComplete]"
    by (simp add: run_defs)
  have c: "OnComplete \<in> set (snd ?r)" by (simp add: o)
  have b: "butlast (snd ?r) \<noteq> []" by (simp add: o)
  have e: "\<exists>nd. OnNext nd \<in> set (snd ?r)" by (auto simp: o)
  have li: "lastValue ?I
       = Some \<lparr>loaded_of = \<lparr>loaded = 100, total = 100\<rparr>, object = Some (HTMLImageElement [1, 2])\<rparr>"
    by (simp add: i lastValue_def)
  have lm: "lastValue ?M
       = Some \<lparr>loaded_of = \<lparr>loaded = 7, total = 7\<rparr>,
               object = Some \<lparr>faces = [0, 1, 2], vertices = [0, 0, 0, 1, 0, 0, 0, 1, 0]\<rparr>\<rparr>"
    by (simp add: m lastValue_def)
  from cacheAssets_emissions [OF r] c
  have t: "(\<exists>v. OnNext v \<in> set ?I) \<and> (\<exists>v. OnNext v \<in> set ?M)"
    "OnComplete \<in> set ?I \<and> OnComplete \<in> set ?M"
    "\<exists>i m img msh. lastValue ?I = Some i \<and> lastValue ?M = Some m
        \<and> object i = Some img \<and> object m = Some msh
        \<and> image_node (node (fst ?r)) = Some img \<and> mesh (node (fst ?r)) = Some msh"
    "lastValue (snd ?r) = Some (node (fst ?r))"
    using e by blast+
  from t(3) li lm
  have f: "image_node (node (fst ?r)) = Some (HTMLImageElement [1, 2])"
    "mesh (node (fst ?r)) = Some \<lparr>faces = [0, 1, 2], vertices = [0, 0, 0, 1, 0, 0, 0, 1, 0]\<rparr>"
    by auto
  from e t(1,2,4) c li lm f b show ?thesis by blast
qed

subsection \<open>Failure of the combined operation\<close>








end
